theory Spec2Isabelle
  imports Main "HOL-Library.Sublist"
begin

section \<open>Python values\<close>

text \<open>
  A Python \<^verbatim>\<open>str\<close> is a sequence of code points. It is modelled as a \<^typ>\<open>string\<close>
  whose characters are the code points below 256, so \<^verbatim>\<open>len\<close> is \<^const>\<open>length\<close>.
  Exceptions are values: a function that can raise returns \<open>exn + 'a\<close>.
\<close>

datatype exn =
    ValueError
  | IndexError
  | KeyError
  | TypeError
  | TranscriptsDisabled
  | NoTranscriptFound
  | OtherException string

text \<open>\<^verbatim>\<open>sub in s\<close> for strings: \<^verbatim>\<open>sub\<close> occurs in \<^verbatim>\<open>s\<close> as a contiguous slice.\<close>

fun py_in :: "string \<Rightarrow> string \<Rightarrow> bool" where
  "py_in sub [] = (sub = [])"
| "py_in sub (c # cs) = (prefix sub (c # cs) \<or> py_in sub cs)"

text \<open>\<^verbatim>\<open>s.split(sep)\<close> for a separator of one character: never an empty list.\<close>

fun py_split :: "char \<Rightarrow> string \<Rightarrow> string list" where
  "py_split sep [] = [[]]"
| "py_split sep (c # cs) =
     (if c = sep then [] # py_split sep cs
      else (case py_split sep cs of
              [] \<Rightarrow> [[c]]
            | p # ps \<Rightarrow> (c # p) # ps))"

text \<open>\<^verbatim>\<open>xs[-1]\<close> and \<^verbatim>\<open>xs[0]\<close>: IndexError on the empty list.\<close>

definition py_last :: "'a list \<Rightarrow> exn + 'a" where
  "py_last xs = (if xs = [] then Inl IndexError else Inr (last xs))"

definition py_first :: "'a list \<Rightarrow> exn + 'a" where
  "py_first xs = (case xs of [] \<Rightarrow> Inl IndexError | x # _ \<Rightarrow> Inr x)"

text \<open>\<^verbatim>\<open>sep.join(items)\<close> on a list of strings.\<close>

fun py_join :: "string \<Rightarrow> string list \<Rightarrow> string" where
  "py_join sep [] = []"
| "py_join sep [x] = x"
| "py_join sep (x # y # ys) = x @ sep @ py_join sep (y # ys)"

text \<open>
  \<^verbatim>\<open>str.isspace\<close> on one code point below 256: TAB to CR, FS to SPACE, NEL (0x85)
  and NO-BREAK SPACE (0xA0). \<^verbatim>\<open>s.strip()\<close> removes such characters at both ends.
\<close>

definition py_isspace :: "char \<Rightarrow> bool" where
  "py_isspace c =
     (let n = (of_char c :: nat)
      in (9 \<le> n \<and> n \<le> 13) \<or> (28 \<le> n \<and> n \<le> 32) \<or> n = 133 \<or> n = 160)"

definition py_strip :: "string \<Rightarrow> string" where
  "py_strip s = rev (dropWhile py_isspace (rev (dropWhile py_isspace s)))"

definition nl :: string where
  "nl = [CHR 0x0A]"

section \<open>extract_video_id\<close>

text \<open>
  \<^verbatim>\<open>
  def extract_video_id(url):
      if "youtu.be" in url:
          return url.split("/")[-1]
      elif "youtube.com" in url:
          return parse_qs(urlparse(url).query).get("v", [None])[0]
      return None
  \<close>
  \<^verbatim>\<open>urlparse\<close> and \<^verbatim>\<open>parse_qs\<close> belong to the standard library. Their outcome on
  the URL is the second argument \<open>qs\<close>: the exception raised (\<^verbatim>\<open>urlparse\<close> raises
  ValueError on a malformed bracketed host), or the dictionary from parameter names to
  their lists of values, as an association list. The lists hold strings only, so the
  default \<^verbatim>\<open>[None]\<close> is the one place a \<^verbatim>\<open>None\<close> entry comes from.
\<close>

type_synonym query_dict = "(string \<times> string list) list"

definition extract_video_id :: "string \<Rightarrow> exn + query_dict \<Rightarrow> exn + string option" where
  "extract_video_id url qs =
     (if py_in ''youtu.be'' url then
        (case py_last (py_split (CHR ''/'') url) of
           Inl e \<Rightarrow> Inl e
         | Inr s \<Rightarrow> Inr (Some s))
      else if py_in ''youtube.com'' url then
        (case qs of
           Inl e \<Rightarrow> Inl e
         | Inr d \<Rightarrow>
             (case py_first (case map_of d ''v'' of
                               None \<Rightarrow> [None]
                             | Some vs \<Rightarrow> map Some vs) of
                Inl e \<Rightarrow> Inl e
              | Inr v \<Rightarrow> Inr v))
      else Inr None)"

text \<open>
  The caller's test \<^verbatim>\<open>if not video_id: st.error("Could not extract video ID.")\<close>:
  \<^verbatim>\<open>None\<close> and the empty string are both falsy, every other string is accepted.
\<close>

definition video_id_accepted :: "string option \<Rightarrow> bool" where
  "video_id_accepted v = (case v of None \<Rightarrow> False | Some s \<Rightarrow> s \<noteq> [])"

text \<open>
  What \<^verbatim>\<open>parse_qs\<close> returns with its default \<^verbatim>\<open>keep_blank_values=False\<close>: every
  name has at least one value and no value is empty.
\<close>

definition no_blank_values :: "exn + query_dict \<Rightarrow> bool" where
  "no_blank_values qs =
     (case qs of
        Inl e \<Rightarrow> True
      | Inr d \<Rightarrow> list_all (\<lambda>(k, vs). vs \<noteq> [] \<and> list_all (\<lambda>v. v \<noteq> []) vs) d)"

section \<open>get_transcript\<close>

text \<open>
  \<^verbatim>\<open>
  def get_transcript(video_id):
      try:
          transcript = YouTubeTranscriptApi.get_transcript(video_id)
          return "\n".join([entry['text'] for entry in transcript])
      except (TranscriptsDisabled, NoTranscriptFound):
          return None
      except Exception as e:
          st.info("Transcript not available from YouTube. Switching to Whisper...")
          return None
  \<close>
  The provider's answer for the video identifier is the argument \<open>fetched\<close>: the
  exception it raised, or the caption entries, each a dictionary from field names to
  values. The second component of the result lists the messages shown with
  \<^verbatim>\<open>st.info\<close>.
\<close>

datatype pyval = PyStr string | PyOther

type_synonym entry = "(string \<times> pyval) list"

definition entry_text :: "entry \<Rightarrow> exn + pyval" where
  "entry_text entry = (case map_of entry ''text'' of None \<Rightarrow> Inl KeyError | Some v \<Rightarrow> Inr v)"

fun entry_texts :: "entry list \<Rightarrow> exn + pyval list" where
  "entry_texts [] = Inr []"
| "entry_texts (entry # entries) =
     (case entry_text entry of
        Inl e \<Rightarrow> Inl e
      | Inr v \<Rightarrow> (case entry_texts entries of Inl e \<Rightarrow> Inl e | Inr vs \<Rightarrow> Inr (v # vs)))"

text \<open>\<^verbatim>\<open>str.join\<close> raises TypeError on an item that is not a string.\<close>

fun str_items :: "pyval list \<Rightarrow> exn + string list" where
  "str_items [] = Inr []"
| "str_items (PyStr s # vs) = (case str_items vs of Inl e \<Rightarrow> Inl e | Inr ss \<Rightarrow> Inr (s # ss))"
| "str_items (PyOther # vs) = Inl TypeError"

definition get_transcript_try :: "exn + entry list \<Rightarrow> exn + string" where
  "get_transcript_try fetched =
     (case fetched of
        Inl e \<Rightarrow> Inl e
      | Inr transcript \<Rightarrow>
          (case entry_texts transcript of
             Inl e \<Rightarrow> Inl e
           | Inr vs \<Rightarrow> (case str_items vs of Inl e \<Rightarrow> Inl e | Inr ss \<Rightarrow> Inr (py_join nl ss))))"

definition get_transcript :: "exn + entry list \<Rightarrow> (exn + string option) \<times> string list" where
  "get_transcript fetched =
     (case get_transcript_try fetched of
        Inr s \<Rightarrow> (Inr (Some s), [])
      | Inl e \<Rightarrow>
          if e = TranscriptsDisabled \<or> e = NoTranscriptFound then (Inr None, [])
          else (Inr None, [''Transcript not available from YouTube. Switching to Whisper...'']))"

section \<open>textwrap.wrap\<close>

text \<open>
  Both callers use \<^verbatim>\<open>textwrap.wrap\<close> of the standard library with its defaults
  \<^verbatim>\<open>expand_tabs=True, tabsize=8, replace_whitespace=True, drop_whitespace=True,
  break_on_hyphens=True, fix_sentence_endings=False, max_lines=None\<close> and empty indents;
  \<^verbatim>\<open>summarize_text\<close> passes \<^verbatim>\<open>break_long_words=False\<close>, \<^verbatim>\<open>save_pdf\<close> leaves it
  \<^verbatim>\<open>True\<close>. The model follows \<^verbatim>\<open>TextWrapper\<close> method by method with these
  defaults fixed.
\<close>

subsection \<open>Character classes\<close>

text \<open>
  \<^verbatim>\<open>_whitespace = '\t\n\x0b\x0c\r '\<close> is the whitespace of the wrapper; the classes
  \<^verbatim>\<open>\d\<close> and \<^verbatim>\<open>\w\<close> of \<^verbatim>\<open>re\<close> are written out for the code points below 256.
\<close>

definition ascii_ws :: "char \<Rightarrow> bool" where
  "ascii_ws c = (c \<in> set [CHR 0x09, CHR 0x0A, CHR 0x0B, CHR 0x0C, CHR 0x0D, CHR 0x20])"

definition re_digit :: "char \<Rightarrow> bool" where
  "re_digit c = (let n = (of_char c :: nat) in 48 \<le> n \<and> n \<le> 57)"

definition re_word :: "char \<Rightarrow> bool" where
  "re_word c =
     (let n = (of_char c :: nat)
      in (48 \<le> n \<and> n \<le> 57) \<or> (65 \<le> n \<and> n \<le> 90) \<or> n = 95 \<or> (97 \<le> n \<and> n \<le> 122)
         \<or> n = 170 \<or> n = 178 \<or> n = 179 \<or> n = 181 \<or> n = 185 \<or> n = 186
         \<or> (188 \<le> n \<and> n \<le> 190) \<or> (192 \<le> n \<and> n \<le> 214)
         \<or> (216 \<le> n \<and> n \<le> 246) \<or> (248 \<le> n \<and> n \<le> 255))"

text \<open>\<^verbatim>\<open>letter = [^\d\W]\<close> and \<^verbatim>\<open>word_punct = [\w!"'&.,?]\<close>.\<close>

definition letter :: "char \<Rightarrow> bool" where
  "letter c = (re_word c \<and> \<not> re_digit c)"

definition word_punct :: "char \<Rightarrow> bool" where
  "word_punct c =
     (re_word c
      \<or> c \<in> set [CHR ''!'', CHR 0x22, CHR 0x27, CHR ''&'', CHR ''.'', CHR '','', CHR ''?''])"

subsection \<open>_munge_whitespace\<close>

text \<open>
  \<^verbatim>\<open>str.expandtabs(tabsize)\<close>: a tab becomes the spaces up to the next tab stop, the
  column starts again after a line feed or carriage return. Then every character of
  \<^verbatim>\<open>_whitespace\<close> is translated to a space.
\<close>

fun expandtabs :: "nat \<Rightarrow> nat \<Rightarrow> string \<Rightarrow> string" where
  "expandtabs tabsize line_pos [] = []"
| "expandtabs tabsize line_pos (ch # cs) =
     (if ch = CHR 0x09 then
        (if tabsize > 0 then
           (let incr = tabsize - line_pos mod tabsize
            in replicate incr (CHR '' '') @ expandtabs tabsize (line_pos + incr) cs)
         else expandtabs tabsize line_pos cs)
      else ch # expandtabs tabsize
                  (if ch = CHR 0x0A \<or> ch = CHR 0x0D then 0 else line_pos + 1) cs)"

definition munge_whitespace :: "string \<Rightarrow> string" where
  "munge_whitespace text = map (\<lambda>c. if ascii_ws c then CHR '' '' else c) (expandtabs 8 0 text)"

subsection \<open>_split: the pattern wordsep_re\<close>

text \<open>
  \<^verbatim>\<open>wordsep_re\<close> has three alternatives, tried in this order at a position:
  a run of whitespace; a run of two or more hyphens after a \<^verbatim>\<open>word_punct\<close> character
  and before a word character; and a word, the shortest run of non-whitespace that is
  followed by a hyphen between letters (the hyphen belongs to the match), by
  whitespace or the end of the text, or by such a run of hyphens. A non-whitespace
  run always reaches its end, so the pattern matches at every position and
  \<^verbatim>\<open>wordsep_re.split\<close> cuts the text into consecutive matches.

  The lookbehinds read the text before the position, also before the start of the
  match: \<open>bef\<close> holds those characters, the nearest first.
\<close>

text \<open>Lookahead \<^verbatim>\<open>(?=-{2,}\w)\<close>: two or more hyphens, all of them, then a word character.\<close>

definition dashes_then_word :: "string \<Rightarrow> bool" where
  "dashes_then_word s =
     (2 \<le> length (takeWhile (\<lambda>c. c = CHR ''-'') s)
      \<and> (case dropWhile (\<lambda>c. c = CHR ''-'') s of [] \<Rightarrow> False | c # _ \<Rightarrow> re_word c))"

text \<open>Lookbehind \<^verbatim>\<open>(?<=[\w!"'&.,?])\<close>.\<close>

definition after_word_punct :: "string \<Rightarrow> bool" where
  "after_word_punct bef = (case bef of [] \<Rightarrow> False | b # _ \<Rightarrow> word_punct b)"

text \<open>
  Around a hyphen: \<^verbatim>\<open>(?<=letter{2}-) | (?<=letter-letter-)\<close> on the characters before
  the hyphen, \<^verbatim>\<open>(?=letter -? letter)\<close> on those after it.
\<close>

definition hyphen_behind :: "string \<Rightarrow> bool" where
  "hyphen_behind bef =
     (case bef of
        a # b # rest \<Rightarrow>
          letter a
          \<and> (letter b \<or> (b = CHR ''-'' \<and> (case rest of [] \<Rightarrow> False | c # _ \<Rightarrow> letter c)))
      | _ \<Rightarrow> False)"

definition hyphen_ahead :: "string \<Rightarrow> bool" where
  "hyphen_ahead cs =
     (case cs of
        a # b # rest \<Rightarrow>
          letter a
          \<and> ((b = CHR ''-'' \<and> (case rest of [] \<Rightarrow> False | c # _ \<Rightarrow> letter c)) \<or> letter b)
      | _ \<Rightarrow> False)"

text \<open>
  The word alternative after its first character: how many more characters the lazy
  \<^verbatim>\<open>[^whitespace]+?\<close> and its tail take.
\<close>

fun word_rest :: "string \<Rightarrow> string \<Rightarrow> nat" where
  "word_rest bef [] = 0"
| "word_rest bef (c # cs) =
     (if c = CHR ''-'' \<and> hyphen_behind bef \<and> hyphen_ahead cs then 1
      else if ascii_ws c then 0
      else if after_word_punct bef \<and> dashes_then_word (c # cs) then 0
      else Suc (word_rest (c # bef) cs))"

definition match_length :: "string \<Rightarrow> char \<Rightarrow> string \<Rightarrow> nat" where
  "match_length bef c cs =
     (if ascii_ws c then length (takeWhile ascii_ws (c # cs))
      else if after_word_punct bef \<and> dashes_then_word (c # cs)
        then length (takeWhile (\<lambda>x. x = CHR ''-'') (c # cs))
      else Suc (word_rest (c # bef) cs))"

lemma match_length_pos: "0 < match_length bef c cs"
  by (auto simp: match_length_def dashes_then_word_def)

function wordsep_split :: "string \<Rightarrow> string \<Rightarrow> string list" where
  "wordsep_split bef [] = []"
| "wordsep_split bef (c # cs) =
     take (match_length bef c cs) (c # cs)
       # wordsep_split (rev (take (match_length bef c cs) (c # cs)) @ bef)
           (drop (match_length bef c cs) (c # cs))"
  by pat_completeness auto
termination
  by (relation "measure (\<lambda>(bef, s). length s)") (use match_length_pos in auto)

text \<open>\<^verbatim>\<open>_split_chunks\<close>: munge, split, and \<^verbatim>\<open>[c for c in chunks if c]\<close>.\<close>

definition split_chunks :: "string \<Rightarrow> string list" where
  "split_chunks text = filter (\<lambda>c. c \<noteq> []) (wordsep_split [] (munge_whitespace text))"

subsection \<open>_wrap_chunks\<close>

text \<open>\<^verbatim>\<open>chunk.strip() == ''\<close>: the chunk has nothing but \<^verbatim>\<open>str.isspace\<close> characters.\<close>

definition blank :: "string \<Rightarrow> bool" where
  "blank s = list_all py_isspace s"

text \<open>
  The inner loop
  \<^verbatim>\<open>
  while chunks:
      l = len(chunks[-1])
      if cur_len + l <= width:
          cur_line.append(chunks.pop()); cur_len += l
      else:
          break
  \<close>
  returns the chunks put on the line and those left. (The library keeps the chunks
  reversed and pops from the end; here the next chunk is the head.)
\<close>

fun take_fitting :: "nat \<Rightarrow> nat \<Rightarrow> string list \<Rightarrow> string list \<times> string list" where
  "take_fitting width cur_len [] = ([], [])"
| "take_fitting width cur_len (chunk # chunks) =
     (if cur_len + length chunk \<le> width then
        (case take_fitting width (cur_len + length chunk) chunks of
           (cur_line, rest) \<Rightarrow> (chunk # cur_line, rest))
      else ([], chunk # chunks))"

text \<open>\<^verbatim>\<open>s.rfind(c, 0, e)\<close>: the last index below \<open>e\<close> that holds \<open>c\<close>; \<open>None\<close> for -1.\<close>

definition rfind :: "char \<Rightarrow> string \<Rightarrow> nat \<Rightarrow> nat option" where
  "rfind c s e =
     (let p = take e s
      in if c \<in> set p then Some (length p - Suc (length (takeWhile (\<lambda>x. x \<noteq> c) (rev p))))
         else None)"

text \<open>
  \<^verbatim>\<open>
  def _handle_long_word(self, reversed_chunks, cur_line, cur_len, width):
      if width < 1:
          space_left = 1
      else:
          space_left = width - cur_len
      if self.break_long_words:
          end = space_left
          chunk = reversed_chunks[-1]
          if self.break_on_hyphens and len(chunk) > space_left:
              hyphen = chunk.rfind('-', 0, space_left)
              if hyphen > 0 and any(c != '-' for c in chunk[:hyphen]):
                  end = hyphen + 1
          cur_line.append(chunk[:end])
          reversed_chunks[-1] = chunk[end:]
      elif not cur_line:
          cur_line.append(reversed_chunks.pop())
  \<close>
  It is called with a chunk at hand and \<^verbatim>\<open>cur_len <= width\<close>, so the subtraction
  is the one on natural numbers. The result is the new \<^verbatim>\<open>cur_line\<close> and the chunks
  left.
\<close>

fun handle_long_word ::
  "bool \<Rightarrow> string list \<Rightarrow> string list \<Rightarrow> nat \<Rightarrow> nat \<Rightarrow> string list \<times> string list" where
  "handle_long_word break_long_words [] cur_line cur_len width = (cur_line, [])"
| "handle_long_word break_long_words (chunk # chunks) cur_line cur_len width =
     (let space_left = (if width < 1 then 1 else width - cur_len)
      in if break_long_words then
           (let end = (if length chunk > space_left then
                         (case rfind (CHR ''-'') chunk space_left of
                            None \<Rightarrow> space_left
                          | Some hyphen \<Rightarrow>
                              if hyphen > 0 \<and> list_ex (\<lambda>c. c \<noteq> CHR ''-'') (take hyphen chunk)
                              then hyphen + 1 else space_left)
                       else space_left)
            in (cur_line @ [take end chunk], drop end chunk # chunks))
         else if cur_line = [] then ([chunk], chunks)
         else (cur_line, chunk # chunks))"

text \<open>
  One round of the outer loop \<^verbatim>\<open>while chunks:\<close>, for a non-empty list of chunks:
  \<^verbatim>\<open>
  cur_line = []; cur_len = 0
  if self.drop_whitespace and chunks[-1].strip() == '' and lines:
      del chunks[-1]
  (the inner loop)
  if chunks and len(chunks[-1]) > width:
      self._handle_long_word(chunks, cur_line, cur_len, width)
      cur_len = sum(map(len, cur_line))
  if self.drop_whitespace and cur_line and cur_line[-1].strip() == '':
      cur_len -= len(cur_line[-1])
      del cur_line[-1]
  \<close>
  \<open>have_lines\<close> says whether \<^verbatim>\<open>lines\<close> is non-empty. The result is \<^verbatim>\<open>cur_line\<close>
  and the chunks left.
\<close>

definition wrap_step :: "nat \<Rightarrow> bool \<Rightarrow> bool \<Rightarrow> string list \<Rightarrow> string list \<times> string list" where
  "wrap_step width break_long_words have_lines chunks =
     (let chunks1 = (case chunks of
                       [] \<Rightarrow> []
                     | c # cs \<Rightarrow> if blank c \<and> have_lines then cs else c # cs);
          (cur_line1, chunks2) = take_fitting width 0 chunks1;
          cur_len = sum_list (map length cur_line1);
          (cur_line2, chunks3) =
             (case chunks2 of
                [] \<Rightarrow> (cur_line1, chunks2)
              | c # cs \<Rightarrow>
                  if length c > width
                  then handle_long_word break_long_words chunks2 cur_line1 cur_len width
                  else (cur_line1, chunks2));
          cur_line3 = (if cur_line2 \<noteq> [] \<and> blank (last cur_line2)
                       then butlast cur_line2 else cur_line2)
      in (cur_line3, chunks3))"

text \<open>Every round uses up a chunk or a part of one: the measure of the outer loop.\<close>

definition chunks_size :: "string list \<Rightarrow> nat" where
  "chunks_size chunks = sum_list (map (\<lambda>c. Suc (length c)) chunks)"

lemma take_fitting_append:
  "take_fitting width cur_len chunks = (cur_line, rest) \<Longrightarrow> chunks = cur_line @ rest"
  by (induction chunks arbitrary: cur_len cur_line rest) (auto split: if_splits prod.splits)

lemma take_fitting_Nil:
  "take_fitting width cur_len chunks = ([], rest) \<Longrightarrow>
     rest = chunks \<and> (chunks = [] \<or> width < cur_len + length (hd chunks))"
  by (cases chunks) (auto split: if_splits prod.splits)

lemma chunks_size_append [simp]: "chunks_size (xs @ ys) = chunks_size xs + chunks_size ys"
  by (simp add: chunks_size_def)

lemma chunks_size_Cons [simp]: "chunks_size (x # xs) = Suc (length x) + chunks_size xs"
  by (simp add: chunks_size_def)

lemma chunks_size_Nil [simp]: "chunks_size [] = 0"
  by (simp add: chunks_size_def)

lemma handle_long_word_size:
  "handle_long_word b chunks cur_line cur_len width = (cur_line', rest) \<Longrightarrow>
     chunks_size rest \<le> chunks_size chunks"
  by (cases chunks) (auto simp: Let_def split: if_splits)

lemma handle_long_word_progress:
  assumes "handle_long_word b (c # cs) [] 0 width = (cur_line', rest)" "width < length c"
  shows "chunks_size rest < chunks_size (c # cs)"
proof (cases b)
  case False
  with assms(1) have "rest = cs" by simp
  then show ?thesis by simp
next
  case True
  from assms(2) have len: "c \<noteq> []" by (cases c) simp_all
  from assms True obtain e where e: "rest = drop e c # cs" "0 < e"
    by (auto simp: Let_def split: if_splits option.splits)
  with len have "length (drop e c) < length c" by simp
  with e show ?thesis by simp
qed

lemma wrap_step_decreases:
  assumes "chunks \<noteq> []"
  shows "chunks_size (snd (wrap_step width b h chunks)) < chunks_size chunks"
proof -
  obtain c cs where chunks: "chunks = c # cs" using assms by (cases chunks) auto
  define chunks1 where "chunks1 = (if blank c \<and> h then cs else c # cs)"
  obtain cur_line1 chunks2 where tf: "take_fitting width 0 chunks1 = (cur_line1, chunks2)"
    by (cases "take_fitting width 0 chunks1") auto
  define r where "r = (case chunks2 of
                [] \<Rightarrow> (cur_line1, chunks2)
              | c # cs \<Rightarrow>
                  if length c > width
                  then handle_long_word b chunks2 cur_line1 (sum_list (map length cur_line1)) width
                  else (cur_line1, chunks2))"
  have snd_eq: "snd (wrap_step width b h chunks) = snd r"
    by (simp add: wrap_step_def chunks chunks1_def [symmetric] tf r_def [symmetric] Let_def
          split: prod.splits)
  have le1: "chunks_size chunks1 \<le> chunks_size chunks"
    by (simp add: chunks1_def chunks)
  have app: "chunks1 = cur_line1 @ chunks2" using tf by (rule take_fitting_append)
  have le3: "chunks_size (snd r) \<le> chunks_size chunks2"
    using handle_long_word_size [of b chunks2 cur_line1 "sum_list (map length cur_line1)" width]
    by (cases "handle_long_word b chunks2 cur_line1 (sum_list (map length cur_line1)) width")
       (auto simp: r_def split: list.splits)
  show ?thesis
  proof (cases "cur_line1 = []")
    case False
    then have "chunks_size chunks2 < chunks_size chunks1"
      using app by (cases cur_line1) auto
    with le1 le3 snd_eq show ?thesis by simp
  next
    case True
    with app have eq: "chunks2 = chunks1" by simp
    show ?thesis
    proof (cases chunks1)
      case Nil
      with eq have "snd r = []" by (simp add: r_def)
      with snd_eq chunks show ?thesis by simp
    next
      case (Cons d ds)
      from tf True Cons have long: "width < length d"
        using take_fitting_Nil [of width 0 chunks1 chunks2] by auto
      have "r = handle_long_word b (d # ds) [] 0 width"
        using long True eq Cons by (simp add: r_def)
      then have "chunks_size (snd r) < chunks_size (d # ds)"
        using handle_long_word_progress [of b d ds width "fst r" "snd r"] long by simp
      with le1 Cons snd_eq show ?thesis by simp
    qed
  qed
qed

lemma wrap_step_decreases_rule:
  "chunks \<noteq> [] \<Longrightarrow> (cur_line, rest) = wrap_step width b h chunks \<Longrightarrow>
     chunks_size rest < chunks_size chunks"
  using wrap_step_decreases [of chunks width b h] by (metis snd_conv)

text \<open>
  The outer loop \<^verbatim>\<open>while chunks:\<close>, ending each round with
  \<^verbatim>\<open>if cur_line: lines.append(indent + ''.join(cur_line))\<close> (no \<^verbatim>\<open>max_lines\<close>,
  empty indent).
\<close>

function wrap_loop :: "nat \<Rightarrow> bool \<Rightarrow> string list \<Rightarrow> string list \<Rightarrow> string list" where
  "wrap_loop width break_long_words lines chunks =
     (if chunks = [] then lines
      else (case wrap_step width break_long_words (lines \<noteq> []) chunks of
              (cur_line, rest) \<Rightarrow>
                wrap_loop width break_long_words
                  (if cur_line \<noteq> [] then lines @ [concat cur_line] else lines) rest))"
  by pat_completeness auto
termination
  by (relation "measure (\<lambda>(width, b, lines, chunks). chunks_size chunks)")
     (auto intro: wrap_step_decreases_rule)

declare wrap_loop.simps [simp del]

text \<open>
  \<^verbatim>\<open>_wrap_chunks\<close> raises ValueError for \<^verbatim>\<open>width <= 0\<close> before the loop, so the
  loop runs with a positive width. \<^verbatim>\<open>textwrap.wrap(text, width, break_long_words=b)\<close>
  is \<^verbatim>\<open>_wrap_chunks(_split_chunks(text))\<close>.
\<close>

definition wrap_chunks :: "int \<Rightarrow> bool \<Rightarrow> string list \<Rightarrow> exn + string list" where
  "wrap_chunks width break_long_words chunks =
     (if width \<le> 0 then Inl ValueError
      else Inr (wrap_loop (nat width) break_long_words [] chunks))"

definition textwrap_wrap :: "string \<Rightarrow> int \<Rightarrow> bool \<Rightarrow> exn + string list" where
  "textwrap_wrap text width break_long_words =
     wrap_chunks width break_long_words (split_chunks text)"

text \<open>
  For the statements: what one round of the loop does with the pieces it uses up.
  It drops a blank piece at the start of a line, keeps the pieces of the line, and
  drops a blank piece at the end of the line.
\<close>

record round =
  dropped_before :: "string list"
  kept :: "string list"
  dropped_after :: "string list"

definition pieces :: "round \<Rightarrow> string list" where
  "pieces r = dropped_before r @ kept r @ dropped_after r"

section \<open>summarize_text\<close>

text \<open>
  The generation service is outside the program. One request,
  \<^verbatim>\<open>model.generate_content(prompt)\<close> followed by \<^verbatim>\<open>response.text\<close>, either raises
  (\<open>Raises\<close> carries \<^verbatim>\<open>str(e)\<close>) or yields the text. What the service answers
  may depend on the prompt and on the prompts sent before it in this run; the run keeps
  the list of prompts sent, in order.
\<close>

datatype gen_result = Raises string | Returns string

type_synonym generator = "string list \<Rightarrow> string \<Rightarrow> gen_result"

definition generate_content :: "generator \<Rightarrow> string list \<Rightarrow> string \<Rightarrow> gen_result \<times> string list" where
  "generate_content gen log prompt = (gen log prompt, log @ [prompt])"

text \<open>The three f-strings of \<^verbatim>\<open>summarize_text\<close>, with the indentation of the source.\<close>

definition direct_prompt :: "string \<Rightarrow> string" where
  "direct_prompt text =
     ''\<newline>'' @
     ''        Summarize the following transcript into a single well-structured report for the entire video:\<newline>'' @
     ''\<newline>'' @
     ''        - Combine all details into ONE report.\<newline>'' @
     ''        - Do NOT include timestamps.\<newline>'' @
     ''        - Use sections: Introduction, Main Points (with subheadings), and Key Takeaways.\<newline>'' @
     ''        - Make it concise, clear, and professional for note-taking or study purposes.\<newline>'' @
     ''\<newline>'' @
     ''        Transcript:\<newline>'' @
     ''        ''
     @ text @ ''\<newline>        ''"

definition chunk_prompt :: "string \<Rightarrow> string" where
  "chunk_prompt chunk =
     ''\<newline>'' @
     ''            Summarize this part of the transcript into short, clear bullet points (max 5):\<newline>'' @
     ''            ''
     @ chunk @ ''\<newline>            ''"

definition final_prompt :: "string \<Rightarrow> string" where
  "final_prompt combined_notes =
     ''\<newline>'' @
     ''        Combine the following notes into a single well-structured report:\<newline>'' @
     ''        - Sections: Introduction, Main Points, Key Takeaways\<newline>'' @
     ''        - Remove repetition\<newline>'' @
     ''        - Do NOT include timestamps\<newline>'' @
     ''\<newline>'' @
     ''        Notes:\<newline>'' @
     ''        ''
     @ combined_notes @ ''\<newline>        ''"

definition report_header :: string where
  "report_header = ''### Video Summary Report\<newline>\<newline>''"

text \<open>
  The error messages start with the cross mark U+274C, a code point beyond the range
  modelled; it is carried as its three UTF-8 code units.
\<close>

definition cross_mark :: string where
  "cross_mark = [CHR 0xE2, CHR 0x9D, CHR 0x8C]"

text \<open>
  The loop over the chunks:
  \<^verbatim>\<open>
  for i, chunk in enumerate(chunks):
      prompt = f"""..."""
      try:
          response = model.generate_content(prompt)
          chunk_summaries.append(response.text.strip())
      except:
          chunk_summaries.append("Error summarizing this chunk.")
  \<close>
\<close>

fun summarize_chunks ::
  "generator \<Rightarrow> string list \<Rightarrow> string list \<Rightarrow> string list \<Rightarrow> string list \<times> string list" where
  "summarize_chunks gen log [] chunk_summaries = (chunk_summaries, log)"
| "summarize_chunks gen log (chunk # chunks) chunk_summaries =
     (case generate_content gen log (chunk_prompt chunk) of
        (Returns text, log') \<Rightarrow>
          summarize_chunks gen log' chunks (chunk_summaries @ [py_strip text])
      | (Raises e, log') \<Rightarrow>
          summarize_chunks gen log' chunks (chunk_summaries @ [''Error summarizing this chunk.'']))"

text \<open>
  \<^verbatim>\<open>summarize_text(text, chunk_size=2000)\<close>: the value returned or the exception
  raised, and the prompts sent. The only exception that leaves the function is the
  ValueError of \<^verbatim>\<open>textwrap.wrap\<close>, which is called outside the \<^verbatim>\<open>try\<close> blocks.
\<close>

definition summarize_text :: "generator \<Rightarrow> string \<Rightarrow> int \<Rightarrow> (exn + string) \<times> string list" where
  "summarize_text gen text chunk_size =
     (if int (length text) \<le> chunk_size then
        (case generate_content gen [] (direct_prompt text) of
           (Returns response_text, log) \<Rightarrow> (Inr (report_header @ py_strip response_text), log)
         | (Raises e, log) \<Rightarrow> (Inr (cross_mark @ '' Error generating summary: '' @ e), log))
      else
        (case textwrap_wrap text chunk_size False of
           Inl e \<Rightarrow> (Inl e, [])
         | Inr chunks \<Rightarrow>
             (case summarize_chunks gen [] chunks [] of
                (chunk_summaries, log) \<Rightarrow>
                  (case generate_content gen log (final_prompt (py_join nl chunk_summaries)) of
                     (Returns response_text, log') \<Rightarrow>
                       (Inr (report_header @ py_strip response_text), log')
                   | (Raises e, log') \<Rightarrow>
                       (Inr (cross_mark @ '' Error combining summaries: '' @ e), log')))))"

section \<open>save_pdf\<close>

text \<open>
  The document renderer is outside the program: the canvas is the list of the
  operations called on it, in order. \<^verbatim>\<open>letter\<close> is 612 by 792 points; the cursor
  takes whole values only, which floating point holds exactly, so it is an integer.
\<close>

datatype canvas_op =
    SetFont string nat
  | DrawString int int string
  | ShowPage
  | Save

definition page_height :: int where
  "page_height = 792"

text \<open>
  \<^verbatim>\<open>
  for wline in wrapped_lines:
      c.drawString(50, y, wline)
      y -= 15
      if y < 50:
          c.showPage()
          y = height - 50
  \<close>
\<close>

fun draw_wrapped :: "string list \<Rightarrow> int \<times> canvas_op list \<Rightarrow> int \<times> canvas_op list" where
  "draw_wrapped [] (y, ops) = (y, ops)"
| "draw_wrapped (wline # wlines) (y, ops) =
     (if y - 15 < 50
      then draw_wrapped wlines (page_height - 50, ops @ [DrawString 50 y wline, ShowPage])
      else draw_wrapped wlines (y - 15, ops @ [DrawString 50 y wline]))"

text \<open>
  \<^verbatim>\<open>
  for line in summary_text.split('\n'):
      wrapped_lines = textwrap.wrap(line, 100)
      (the loop above)
  \<close>
\<close>

fun draw_lines :: "string list \<Rightarrow> int \<times> canvas_op list \<Rightarrow> exn + int \<times> canvas_op list" where
  "draw_lines [] st = Inr st"
| "draw_lines (line # lines) st =
     (case textwrap_wrap line 100 True of
        Inl e \<Rightarrow> Inl e
      | Inr wrapped_lines \<Rightarrow> draw_lines lines (draw_wrapped wrapped_lines st))"

text \<open>\<^verbatim>\<open>os.path.join(a, b)\<close> of two components on a POSIX host.\<close>

definition path_join :: "string \<Rightarrow> string \<Rightarrow> string" where
  "path_join a b =
     (if b \<noteq> [] \<and> hd b = CHR ''/'' then b
      else if a = [] \<or> last a = CHR ''/'' then a @ b
      else a @ ''/'' @ b)"

text \<open>
  \<^verbatim>\<open>save_pdf(title, summary_text, filename)\<close>, with the directory that
  \<^verbatim>\<open>tempfile.gettempdir()\<close> returns as an argument: the path returned and the
  operations on the canvas.
\<close>

definition save_pdf ::
  "string \<Rightarrow> string \<Rightarrow> string \<Rightarrow> string \<Rightarrow> exn + string \<times> canvas_op list" where
  "save_pdf tempdir title summary_text filename =
     (let pdf_path = path_join tempdir filename;
          ops = [SetFont ''Helvetica-Bold'' 14,
                 DrawString 50 (page_height - 50) title,
                 SetFont ''Helvetica'' 10];
          y = page_height - 70
      in case draw_lines (py_split (CHR 0x0A) summary_text) (y, ops) of
           Inl e \<Rightarrow> Inl e
         | Inr (y', ops') \<Rightarrow> Inr (pdf_path, ops' @ [Save]))"

text \<open>
  For the statements about the cursor: its value after one more rendered line, as the
  loop body computes it.
\<close>

definition next_cursor :: "int \<Rightarrow> int" where
  "next_cursor y = (if y - 15 < 50 then page_height - 50 else y - 15)"

section \<open>Stand-ins for the generation service\<close>

text \<open>
  Services for the examples: one that always raises, one that answers every prompt,
  one whose second request raises.
\<close>

definition failing_service :: generator where
  "failing_service log prompt = Raises ''quota exceeded''"

definition fixed_service :: generator where
  "fixed_service log prompt = Returns '' - a point\<newline>''"

definition second_request_fails :: generator where
  "second_request_fails log prompt =
     (case length log of
        0 \<Rightarrow> Returns '' first\<newline>''
      | Suc 0 \<Rightarrow> Raises ''timed out''
      | _ \<Rightarrow> Returns ''later'')"

section \<open>Facts about the string primitives\<close>

lemma py_in_iff: "py_in sub s \<longleftrightarrow> (\<exists>pre post. s = pre @ sub @ post)"
proof (induction s)
  case Nil
  then show ?case by auto
next
  case (Cons c cs)
  show ?case
  proof
    assume "py_in sub (c # cs)"
    then consider "prefix sub (c # cs)" | "py_in sub cs" by auto
    then show "\<exists>pre post. c # cs = pre @ sub @ post"
    proof cases
      case 1
      then obtain post where "c # cs = sub @ post" by (auto simp: prefix_def)
      then have "c # cs = [] @ sub @ post" by simp
      then show ?thesis by blast
    next
      case 2
      with Cons.IH obtain pre post where "cs = pre @ sub @ post" by blast
      then have "c # cs = (c # pre) @ sub @ post" by simp
      then show ?thesis by blast
    qed
  next
    assume "\<exists>pre post. c # cs = pre @ sub @ post"
    then obtain pre post where eq: "c # cs = pre @ sub @ post" by blast
    show "py_in sub (c # cs)"
    proof (cases pre)
      case Nil
      with eq have "prefix sub (c # cs)" by (simp add: prefix_def)
      then show ?thesis by simp
    next
      case (Cons p pre')
      with eq have "cs = pre' @ sub @ post" by simp
      with Cons.IH have "py_in sub cs" by blast
      then show ?thesis by simp
    qed
  qed
qed

lemma py_split_not_Nil: "py_split sep s \<noteq> []"
  by (induction s) (auto split: list.splits)

lemma py_split_last_no_sep: "sep \<notin> set (last (py_split sep s))"
  by (induction s) (auto split: list.splits simp: py_split_not_Nil)

lemma py_split_last_suffix_aux:
  "\<exists>pre. s = pre @ last (py_split sep s) \<and> (pre = [] \<or> last pre = sep)
     \<and> (length (py_split sep s) = 1 \<longleftrightarrow> pre = [])"
proof (induction s)
  case Nil
  then show ?case by simp
next
  case (Cons c cs)
  then obtain pre where pre: "cs = pre @ last (py_split sep cs)"
      "pre = [] \<or> last pre = sep" "length (py_split sep cs) = 1 \<longleftrightarrow> pre = []"
    by blast
  obtain p ps where ps: "py_split sep cs = p # ps"
    using py_split_not_Nil by (cases "py_split sep cs") auto
  show ?case
  proof (cases "c = sep")
    case True
    with ps pre have "c # cs = (c # pre) @ last (py_split sep (c # cs))
        \<and> (c # pre = [] \<or> last (c # pre) = sep)
        \<and> (length (py_split sep (c # cs)) = 1 \<longleftrightarrow> c # pre = [])" by auto
    then show ?thesis by blast
  next
    case False
    show ?thesis
    proof (cases ps)
      case Nil
      with ps pre False have "c # cs = [] @ last (py_split sep (c # cs))
        \<and> (length (py_split sep (c # cs)) = 1 \<longleftrightarrow> ([]::string) = [])" by auto
      then show ?thesis by blast
    next
      case (Cons q qs)
      with ps pre False have "c # cs = (c # pre) @ last (py_split sep (c # cs))
        \<and> (c # pre = [] \<or> last (c # pre) = sep)
        \<and> (length (py_split sep (c # cs)) = 1 \<longleftrightarrow> c # pre = [])" by auto
      then show ?thesis by blast
    qed
  qed
qed

lemma py_split_last_suffix:
  "\<exists>pre. s = pre @ last (py_split sep s) \<and> (pre = [] \<or> last pre = sep)"
  using py_split_last_suffix_aux [of s sep] by blast

lemma youtu_be_branch:
  "py_in ''youtu.be'' url \<Longrightarrow>
     extract_video_id url qs = Inr (Some (last (py_split (CHR ''/'') url)))"
  by (simp add: extract_video_id_def py_last_def py_split_not_Nil)

lemma last_py_split_empty_iff:
  "last (py_split sep s) = [] \<longleftrightarrow> s = [] \<or> last s = sep"
proof -
  obtain pre where pre: "s = pre @ last (py_split sep s)" "pre = [] \<or> last pre = sep"
    using py_split_last_suffix by blast
  show ?thesis
  proof (cases "last (py_split sep s) = []")
    case True
    with pre show ?thesis by auto
  next
    case False
    then have "last s = last (last (py_split sep s))" using pre(1)
      by (metis last_appendR)
    moreover have "last (last (py_split sep s)) \<in> set (last (py_split sep s))"
      using False by simp
    ultimately have "last s \<noteq> sep" using py_split_last_no_sep [of sep s] by auto
    with False pre show ?thesis by auto
  qed
qed

section \<open>Facts about the wrapper\<close>

subsection \<open>Whitespace and the splitter\<close>

lemma ascii_ws_isspace: "ascii_ws c \<Longrightarrow> py_isspace c"
  by (auto simp: ascii_ws_def py_isspace_def)

lemma isspace_space: "py_isspace (CHR '' '')"
  by (simp add: py_isspace_def)

lemma expandtabs_content:
  "filter (\<lambda>c. \<not> py_isspace c) (expandtabs tabsize line_pos s)
     = filter (\<lambda>c. \<not> py_isspace c) s"
proof (induction s arbitrary: line_pos)
  case Nil
  then show ?case by simp
next
  case (Cons ch cs)
  have tab: "py_isspace (CHR 0x09)" by (simp add: py_isspace_def)
  have spaces: "filter (\<lambda>c. \<not> py_isspace c) (replicate n (CHR '' '')) = []" for n
    by (simp add: isspace_space)
  show ?case
  proof (cases "ch = CHR 0x09")
    case True
    show ?thesis
    proof (cases "tabsize > 0")
      case True
      with \<open>ch = CHR 0x09\<close> tab spaces Cons show ?thesis by (simp add: Let_def)
    next
      case False
      with \<open>ch = CHR 0x09\<close> tab Cons show ?thesis by simp
    qed
  next
    case False
    with Cons show ?thesis by simp
  qed
qed

lemma munge_whitespace_content:
  "filter (\<lambda>c. \<not> py_isspace c) (munge_whitespace s) = filter (\<lambda>c. \<not> py_isspace c) s"
proof -
  have "filter (\<lambda>c. \<not> py_isspace c) (map (\<lambda>c. if ascii_ws c then CHR '' '' else c) t)
      = filter (\<lambda>c. \<not> py_isspace c) t" for t
    by (induction t) (auto simp: isspace_space ascii_ws_isspace)
  then show ?thesis by (simp add: munge_whitespace_def expandtabs_content)
qed

lemma concat_wordsep_split: "concat (wordsep_split bef s) = s"
  by (induction bef s rule: wordsep_split.induct) simp_all

lemma concat_filter_nonempty: "concat (filter (\<lambda>c. c \<noteq> []) xs) = concat xs"
  by (induction xs) auto

lemma concat_split_chunks: "concat (split_chunks s) = munge_whitespace s"
  by (simp add: split_chunks_def concat_filter_nonempty concat_wordsep_split)

lemma split_chunks_nonempty: "c \<in> set (split_chunks s) \<Longrightarrow> c \<noteq> []"
  by (simp add: split_chunks_def)

lemma blank_content: "blank c \<Longrightarrow> filter (\<lambda>x. \<not> py_isspace x) c = []"
  by (simp add: blank_def list_all_iff filter_empty_conv)

lemma blanks_content:
  "list_all blank d \<Longrightarrow> filter (\<lambda>x. \<not> py_isspace x) (concat d) = []"
  by (induction d) (auto simp: blank_content)

subsection \<open>One round of the loop\<close>

lemma take_fitting_fits:
  "take_fitting width cur_len chunks = (cur_line, rest) \<Longrightarrow> cur_len \<le> width \<Longrightarrow>
     cur_len + length (concat cur_line) \<le> width"
proof (induction chunks arbitrary: cur_len cur_line rest)
  case Nil
  then show ?case by simp
next
  case (Cons c cs)
  show ?case
  proof (cases "cur_len + length c \<le> width")
    case True
    obtain l r where lr: "take_fitting width (cur_len + length c) cs = (l, r)"
      by (cases "take_fitting width (cur_len + length c) cs") auto
    with True Cons.prems have "cur_line = c # l" by simp
    moreover from Cons.IH [OF lr True] have "cur_len + length c + length (concat l) \<le> width" .
    ultimately show ?thesis by simp
  next
    case False
    with Cons.prems show ?thesis by simp
  qed
qed

lemma rfind_less: "rfind c s e = Some i \<Longrightarrow> i < e"
proof -
  assume a: "rfind c s e = Some i"
  define p where "p = take e s"
  from a have in_p: "c \<in> set p"
    and i: "i = length p - Suc (length (takeWhile (\<lambda>x. x \<noteq> c) (rev p)))"
    by (auto simp: rfind_def p_def Let_def split: if_splits)
  from in_p have "0 < length p" by (cases p) auto
  with i have "i < length p" by arith
  then show "i < e" by (simp add: p_def)
qed

lemma handle_long_word_break:
  assumes "handle_long_word True (c # cs) cur_line cur_len width = (cur_line', rest)"
    and "1 \<le> width"
  shows "\<exists>e. e \<le> width - cur_len \<and> cur_line' = cur_line @ [take e c] \<and> rest = drop e c # cs"
proof -
  define e where "e = (if length c > width - cur_len then
                         (case rfind (CHR ''-'') c (width - cur_len) of
                            None \<Rightarrow> width - cur_len
                          | Some hyphen \<Rightarrow>
                              if hyphen > 0 \<and> list_ex (\<lambda>c. c \<noteq> CHR ''-'') (take hyphen c)
                              then hyphen + 1 else width - cur_len)
                       else width - cur_len)"
  have "e \<le> width - cur_len"
    using rfind_less [of "CHR ''-''" c "width - cur_len"]
    by (auto simp: e_def split: option.splits)
  moreover have "handle_long_word True (c # cs) cur_line cur_len width
      = (cur_line @ [take e c], drop e c # cs)"
    using assms(2) unfolding e_def by (simp add: Let_def)
  ultimately show ?thesis using assms(1) by auto
qed

lemma handle_long_word_keep:
  assumes "handle_long_word False (c # cs) cur_line cur_len width = (cur_line', rest)"
  shows "(cur_line = [] \<and> cur_line' = [c] \<and> rest = cs)
       \<or> (cur_line \<noteq> [] \<and> cur_line' = cur_line \<and> rest = c # cs)"
  using assms by (auto simp: Let_def split: if_splits)

lemma wrap_step_stages:
  assumes "wrap_step width b h chunks = (cur_line, rest)"
  obtains d1 cur_line1 chunks2 cur_line2 d2 where
    "chunks = d1 @ cur_line1 @ chunks2" "list_all blank d1"
    "take_fitting width 0 (cur_line1 @ chunks2) = (cur_line1, chunks2)"
    "(case chunks2 of
        [] \<Rightarrow> (cur_line1, chunks2)
      | c # cs \<Rightarrow>
          if length c > width
          then handle_long_word b chunks2 cur_line1 (sum_list (map length cur_line1)) width
          else (cur_line1, chunks2)) = (cur_line2, rest)"
    "cur_line2 = cur_line @ d2" "list_all blank d2"
proof -
  define chunks1 where "chunks1 = (case chunks of
                       [] \<Rightarrow> []
                     | c # cs \<Rightarrow> if blank c \<and> h then cs else c # cs)"
  define d1 where "d1 = (case chunks of
                       [] \<Rightarrow> []
                     | c # cs \<Rightarrow> if blank c \<and> h then [c] else [])"
  obtain cur_line1 chunks2 where tf: "take_fitting width 0 chunks1 = (cur_line1, chunks2)"
    by (cases "take_fitting width 0 chunks1") auto
  define r where "r = (case chunks2 of
        [] \<Rightarrow> (cur_line1, chunks2)
      | c # cs \<Rightarrow>
          if length c > width
          then handle_long_word b chunks2 cur_line1 (sum_list (map length cur_line1)) width
          else (cur_line1, chunks2))"
  obtain cur_line2 chunks3 where r: "r = (cur_line2, chunks3)"
    by (cases r) auto
  have lw: "(case chunks2 of
        [] \<Rightarrow> (cur_line1, chunks2)
      | c # cs \<Rightarrow>
          if length c > width
          then handle_long_word b chunks2 cur_line1 (sum_list (map length cur_line1)) width
          else (cur_line1, chunks2)) = (cur_line2, chunks3)"
    using r by (simp add: r_def)
  define d2 where "d2 = (if cur_line2 \<noteq> [] \<and> blank (last cur_line2)
                       then [last cur_line2] else [])"
  have res: "wrap_step width b h chunks
      = (if cur_line2 \<noteq> [] \<and> blank (last cur_line2) then butlast cur_line2 else cur_line2,
         chunks3)"
    by (simp add: wrap_step_def chunks1_def [symmetric] tf r_def [symmetric] r Let_def)
  with assms have cl: "cur_line = (if cur_line2 \<noteq> [] \<and> blank (last cur_line2)
        then butlast cur_line2 else cur_line2)" and rest: "rest = chunks3"
    by simp_all
  have app: "chunks1 = cur_line1 @ chunks2" using tf by (rule take_fitting_append)
  have 1: "chunks = d1 @ cur_line1 @ chunks2"
    unfolding app [symmetric] by (auto simp: d1_def chunks1_def split: list.splits)
  have 2: "list_all blank d1" by (auto simp: d1_def split: list.splits)
  have 3: "take_fitting width 0 (cur_line1 @ chunks2) = (cur_line1, chunks2)"
    using tf app by simp
  have 5: "cur_line2 = cur_line @ d2" by (simp add: cl d2_def)
  have 6: "list_all blank d2" by (simp add: d2_def)
  from 1 2 3 lw 5 6 rest that show thesis by blast
qed

lemma wrap_step_content:
  assumes "wrap_step width b h chunks = (cur_line, rest)"
  shows "filter (\<lambda>c. \<not> py_isspace c) (concat cur_line) @ filter (\<lambda>c. \<not> py_isspace c) (concat rest)
       = filter (\<lambda>c. \<not> py_isspace c) (concat chunks)"
proof -
  from assms obtain d1 cur_line1 chunks2 cur_line2 d2 where
    st: "chunks = d1 @ cur_line1 @ chunks2" "list_all blank d1"
    "(case chunks2 of
        [] \<Rightarrow> (cur_line1, chunks2)
      | c # cs \<Rightarrow>
          if length c > width
          then handle_long_word b chunks2 cur_line1 (sum_list (map length cur_line1)) width
          else (cur_line1, chunks2)) = (cur_line2, rest)"
    "cur_line2 = cur_line @ d2" "list_all blank d2"
    by (rule wrap_step_stages)
  have "concat cur_line2 @ concat rest = concat cur_line1 @ concat chunks2"
  proof (cases chunks2)
    case Nil
    with st(3) show ?thesis by simp
  next
    case (Cons c cs)
    show ?thesis
    proof (cases "length c > width")
      case False
      with Cons st(3) show ?thesis by simp
    next
      case True
      with Cons st(3) have "handle_long_word b (c # cs) cur_line1
          (sum_list (map length cur_line1)) width = (cur_line2, rest)" by simp
      then show ?thesis using Cons
        by (cases b) (auto simp: Let_def split: if_splits)
    qed
  qed
  then have "filter (\<lambda>c. \<not> py_isspace c) (concat cur_line2 @ concat rest)
      = filter (\<lambda>c. \<not> py_isspace c) (concat cur_line1 @ concat chunks2)" by simp
  then show ?thesis
    using st(1,2,4,5) by (simp add: blanks_content)
qed

lemma wrap_step_width:
  assumes "wrap_step width True h chunks = (cur_line, rest)" "1 \<le> width"
  shows "length (concat cur_line) \<le> width"
proof -
  from assms(1) obtain d1 cur_line1 chunks2 cur_line2 d2 where
    st: "take_fitting width 0 (cur_line1 @ chunks2) = (cur_line1, chunks2)"
    "(case chunks2 of
        [] \<Rightarrow> (cur_line1, chunks2)
      | c # cs \<Rightarrow>
          if length c > width
          then handle_long_word True chunks2 cur_line1 (sum_list (map length cur_line1)) width
          else (cur_line1, chunks2)) = (cur_line2, rest)"
    "cur_line2 = cur_line @ d2"
    by (rule wrap_step_stages)
  have fits: "length (concat cur_line1) \<le> width"
    using take_fitting_fits [OF st(1)] by simp
  have len: "sum_list (map length cur_line1) = length (concat cur_line1)"
    by (simp add: length_concat)
  have "length (concat cur_line2) \<le> width"
  proof (cases chunks2)
    case Nil
    with st(2) fits show ?thesis by simp
  next
    case (Cons c cs)
    show ?thesis
    proof (cases "length c > width")
      case False
      with Cons st(2) fits show ?thesis by simp
    next
      case True
      with Cons st(2) have "handle_long_word True (c # cs) cur_line1
          (length (concat cur_line1)) width = (cur_line2, rest)" by (simp add: len)
      from handle_long_word_break [OF this assms(2)]
      obtain e where "e \<le> width - length (concat cur_line1)"
        "cur_line2 = cur_line1 @ [take e c]" by blast
      with fits show ?thesis by simp
    qed
  qed
  with st(3) show ?thesis by simp
qed

subsection \<open>The loop\<close>

lemma wrap_loop_Nil: "wrap_loop width b lines [] = lines"
  by (simp add: wrap_loop.simps)

lemma wrap_loop_step:
  "chunks \<noteq> [] \<Longrightarrow> wrap_step width b (lines \<noteq> []) chunks = (cur_line, rest) \<Longrightarrow>
     wrap_loop width b lines chunks
       = wrap_loop width b (if cur_line \<noteq> [] then lines @ [concat cur_line] else lines) rest"
  by (subst wrap_loop.simps) simp

lemma wrap_loop_rounds [case_names empty round]:
  assumes "\<And>lines. P lines []"
    and "\<And>lines chunks cur_line rest.
           chunks \<noteq> [] \<Longrightarrow> wrap_step width b (lines \<noteq> []) chunks = (cur_line, rest) \<Longrightarrow>
           P (if cur_line \<noteq> [] then lines @ [concat cur_line] else lines) rest \<Longrightarrow>
           P lines chunks"
  shows "P lines chunks"
  using assms
proof (induction width b lines chunks rule: wrap_loop.induct)
  case (1 width b lines chunks)
  show ?case
  proof (cases "chunks = []")
    case True
    then show ?thesis using "1.prems"(1) by simp
  next
    case False
    obtain cur_line rest where ws: "wrap_step width b (lines \<noteq> []) chunks = (cur_line, rest)"
      by (cases "wrap_step width b (lines \<noteq> []) chunks") auto
    have "P (if cur_line \<noteq> [] then lines @ [concat cur_line] else lines) rest"
    proof (rule "1.IH" [OF False ws [symmetric]])
      show "P lines []" for lines by (rule "1.prems"(1))
      show "P lines chunks"
        if "chunks \<noteq> []" "wrap_step width b (lines \<noteq> []) chunks = (cur_line, rest)"
          "P (if cur_line \<noteq> [] then lines @ [concat cur_line] else lines) rest"
        for lines chunks cur_line rest
        using that by (rule "1.prems"(2))
    qed
    with False ws show ?thesis by (rule "1.prems"(2))
  qed
qed

lemma wrap_loop_content:
  "filter (\<lambda>c. \<not> py_isspace c) (concat (wrap_loop width b lines chunks))
     = filter (\<lambda>c. \<not> py_isspace c) (concat lines) @ filter (\<lambda>c. \<not> py_isspace c) (concat chunks)"
proof (induction lines chunks rule: wrap_loop_rounds [where width = width and b = b])
  case (empty lines)
  then show ?case by (simp add: wrap_loop_Nil)
next
  case (round lines chunks cur_line rest)
  have e: "filter (\<lambda>c. \<not> py_isspace c)
        (concat (if cur_line \<noteq> [] then lines @ [concat cur_line] else lines))
      = filter (\<lambda>c. \<not> py_isspace c) (concat lines)
        @ filter (\<lambda>c. \<not> py_isspace c) (concat cur_line)"
    by simp
  show ?case
    unfolding wrap_loop_step [OF round(1,2)] round(3) e
    using wrap_step_content [OF round(2)] by simp
qed

lemma wrap_loop_width:
  assumes "1 \<le> width"
  shows "\<forall>l \<in> set (wrap_loop width True lines chunks). l \<in> set lines \<or> length l \<le> width"
proof (induction lines chunks rule: wrap_loop_rounds [where width = width and b = True])
  case (empty lines)
  then show ?case by (simp add: wrap_loop_Nil)
next
  case (round lines chunks cur_line rest)
  from wrap_step_width [OF round(2) assms] round(3) show ?case
    by (auto simp: wrap_loop_step [OF round(1,2)] split: if_splits)
qed

lemma py_join_content:
  "list_all py_isspace sep \<Longrightarrow>
     filter (\<lambda>c. \<not> py_isspace c) (py_join sep xs) = filter (\<lambda>c. \<not> py_isspace c) (concat xs)"
  by (induction sep xs rule: py_join.induct)
     (simp_all add: list_all_iff filter_empty_conv)

lemma wrap_content:
  "filter (\<lambda>c. \<not> py_isspace c) (concat (wrap_loop width b [] (split_chunks s)))
     = filter (\<lambda>c. \<not> py_isspace c) s"
  by (simp add: wrap_loop_content concat_split_chunks munge_whitespace_content)


subsection \<open>Where the splitter cuts\<close>

lemma word_rest_stop:
  "word_rest bef s \<le> length s
   \<and> (word_rest bef s = length s
      \<or> (0 < word_rest bef s \<and> s ! (word_rest bef s - 1) = CHR ''-'')
      \<or> ascii_ws (s ! word_rest bef s)
      \<or> s ! word_rest bef s = CHR ''-'')"
proof (induction bef s rule: word_rest.induct)
  case (1 bef)
  then show ?case by simp
next
  case (2 bef c cs)
  show ?case
  proof (cases "c = CHR ''-'' \<and> hyphen_behind bef \<and> hyphen_ahead cs")
    case True
    then show ?thesis by simp
  next
    case nota: False
    show ?thesis
    proof (cases "ascii_ws c")
      case True
      with nota show ?thesis by simp
    next
      case notb: False
      show ?thesis
      proof (cases "after_word_punct bef \<and> dashes_then_word (c # cs)")
        case True
        then have "2 \<le> length (takeWhile (\<lambda>x. x = CHR ''-'') (c # cs))"
          by (simp add: dashes_then_word_def)
        then have "c = CHR ''-''" by (cases "c = CHR ''-''") simp_all
        with True nota notb show ?thesis by simp
      next
        case notc: False
        define k where "k = word_rest (c # bef) cs"
        from "2.IH" [OF nota notb notc]
        have ih: "k \<le> length cs"
          "k = length cs \<or> (0 < k \<and> cs ! (k - 1) = CHR ''-'')
            \<or> ascii_ws (cs ! k) \<or> cs ! k = CHR ''-''"
          by (simp_all add: k_def)
        have r: "word_rest bef (c # cs) = Suc k"
          using nota notb notc by (auto simp: k_def)
        from ih(2) have "Suc k = length (c # cs)
            \<or> (c # cs) ! (Suc k - 1) = CHR ''-''
            \<or> ascii_ws ((c # cs) ! Suc k) \<or> (c # cs) ! Suc k = CHR ''-''"
          by (cases k) auto
        with ih(1) show ?thesis unfolding r by auto
      qed
    qed
  qed
qed

lemma takeWhile_last_nth:
  assumes "0 < length (takeWhile P xs)"
  shows "P (xs ! (length (takeWhile P xs) - 1))"
proof -
  from assms have j: "length (takeWhile P xs) - 1 < length (takeWhile P xs)" by simp
  then have "takeWhile P xs ! (length (takeWhile P xs) - 1) \<in> set (takeWhile P xs)"
    by (rule nth_mem)
  then have "P (takeWhile P xs ! (length (takeWhile P xs) - 1))"
    by (rule set_takeWhileD [THEN conjunct2])
  with j show ?thesis by (simp add: takeWhile_nth)
qed

lemma match_length_stop:
  assumes "n = match_length bef c cs" "s = c # cs"
  shows "0 < n \<and> n \<le> length s
   \<and> (n = length s \<or> ascii_ws (s ! (n - 1)) \<or> s ! (n - 1) = CHR ''-''
      \<or> ascii_ws (s ! n) \<or> s ! n = CHR ''-'')"
proof -
  have pos: "0 < n" using assms(1) match_length_pos by simp
  show ?thesis
  proof (cases "ascii_ws c")
    case True
    then have n: "n = length (takeWhile ascii_ws s)"
      using assms by (simp add: match_length_def)
    with pos have "ascii_ws (s ! (n - 1))"
      using takeWhile_last_nth [of ascii_ws s] by simp
    moreover have "n \<le> length s" unfolding n by (rule length_takeWhile_le)
    ultimately show ?thesis using pos by simp
  next
    case notws: False
    show ?thesis
    proof (cases "after_word_punct bef \<and> dashes_then_word (c # cs)")
      case True
      with notws have n: "n = length (takeWhile (\<lambda>x. x = CHR ''-'') s)"
        using assms by (simp add: match_length_def)
      with pos have "s ! (n - 1) = CHR ''-''"
        using takeWhile_last_nth [of "\<lambda>x. x = CHR ''-''" s] by simp
      moreover have "n \<le> length s" unfolding n by (rule length_takeWhile_le)
      ultimately show ?thesis using pos by simp
    next
      case False
      define k where "k = word_rest (c # bef) cs"
      from False notws have n: "n = Suc k"
        using assms by (auto simp: match_length_def k_def)
      from word_rest_stop [of "c # bef" cs]
      have st: "k \<le> length cs"
        "k = length cs \<or> (0 < k \<and> cs ! (k - 1) = CHR ''-'')
            \<or> ascii_ws (cs ! k) \<or> cs ! k = CHR ''-''"
        by (simp_all add: k_def)
      from st(2) have "Suc k = length s \<or> s ! (Suc k - 1) = CHR ''-''
          \<or> ascii_ws (s ! Suc k) \<or> s ! Suc k = CHR ''-''"
        unfolding assms(2) by (cases k) auto
      with st(1) show ?thesis unfolding n assms(2) by auto
    qed
  qed
qed

lemma wordsep_split_first:
  "s \<noteq> [] \<Longrightarrow> \<exists>p ps. wordsep_split bef s = p # ps \<and> p \<noteq> [] \<and> hd p = hd s"
proof -
  assume "s \<noteq> []"
  then obtain c cs where s: "s = c # cs" by (cases s) auto
  have "0 < match_length bef c cs" by (rule match_length_pos)
  then obtain m where "match_length bef c cs = Suc m" by (cases "match_length bef c cs") auto
  then show ?thesis by (simp add: s)
qed

lemma wordsep_split_pieces_nonempty: "p \<in> set (wordsep_split bef s) \<Longrightarrow> p \<noteq> []"
proof (induction bef s rule: wordsep_split.induct)
  case (1 bef)
  then show ?case by simp
next
  case (2 bef c cs)
  have "0 < match_length bef c cs" by (rule match_length_pos)
  then have "take (match_length bef c cs) (c # cs) \<noteq> []" by (cases "match_length bef c cs") auto
  with 2 show ?case by auto
qed

lemma wordsep_split_cut:
  "wordsep_split bef s = ps @ p # q # qs \<Longrightarrow>
     ascii_ws (last p) \<or> ascii_ws (hd q) \<or> last p = CHR ''-'' \<or> hd q = CHR ''-''"
proof (induction bef s arbitrary: ps rule: wordsep_split.induct)
  case (1 bef)
  then show ?case by simp
next
  case (2 bef c cs)
  define n where "n = match_length bef c cs"
  define s where "s = c # cs"
  from match_length_stop [OF n_def s_def]
  have n: "0 < n" "n \<le> length s"
    "n = length s \<or> ascii_ws (s ! (n - 1)) \<or> s ! (n - 1) = CHR ''-''
      \<or> ascii_ws (s ! n) \<or> s ! n = CHR ''-''" by simp_all
  have eq: "wordsep_split bef s = take n s # wordsep_split (rev (take n s) @ bef) (drop n s)"
    by (simp add: s_def n_def)
  show ?case
  proof (cases ps)
    case Nil
    from "2.prems" [folded s_def] Nil have "wordsep_split bef s = p # q # qs" by simp
    with eq have p: "p = take n s"
      and rest: "wordsep_split (rev (take n s) @ bef) (drop n s) = q # qs"
      by simp_all
    from rest have ne: "drop n s \<noteq> []" by auto
    then have lt: "n < length s" by simp
    from wordsep_split_first [OF ne, of "rev (take n s) @ bef"] rest
    have "hd q = hd (drop n s)" by auto
    with lt have q: "hd q = s ! n" by (simp add: hd_drop_conv_nth)
    from n(1,2) have ne': "take n s \<noteq> []" by auto
    have "last (take n s) = take n s ! (length (take n s) - 1)"
      by (rule last_conv_nth [OF ne'])
    also from n(1,2) have "\<dots> = s ! (n - 1)" by (simp add: min_absorb2)
    finally have "last (take n s) = s ! (n - 1)" .
    with p q n(3) lt show ?thesis by auto
  next
    case (Cons a ps')
    from "2.prems" [folded s_def] Cons
    have "wordsep_split bef s = a # ps' @ p # q # qs" by simp
    with eq
    have "wordsep_split (rev (take n s) @ bef) (drop n s) = ps' @ p # q # qs"
      by simp
    then show ?thesis
      using "2.IH" [of ps'] by (simp add: s_def n_def)
  qed
qed

lemma split_chunks_eq: "split_chunks s = wordsep_split [] (munge_whitespace s)"
  using wordsep_split_pieces_nonempty [of _ "[]" "munge_whitespace s"]
  by (simp add: split_chunks_def filter_id_conv)

lemma split_chunks_cut:
  "split_chunks s = ps @ p # q # qs \<Longrightarrow>
     ascii_ws (last p) \<or> ascii_ws (hd q) \<or> last p = CHR ''-'' \<or> hd q = CHR ''-''"
  unfolding split_chunks_eq by (rule wordsep_split_cut)

subsection \<open>The rounds of the loop when long words are kept whole\<close>

lemma take_fitting_stops:
  "take_fitting width cur_len chunks = (cur_line, c # rest) \<Longrightarrow>
     width < cur_len + length (concat cur_line) + length c"
proof (induction chunks arbitrary: cur_len cur_line)
  case Nil
  then show ?case by simp
next
  case (Cons d ds)
  show ?case
  proof (cases "cur_len + length d \<le> width")
    case True
    obtain l r where lr: "take_fitting width (cur_len + length d) ds = (l, r)"
      by (cases "take_fitting width (cur_len + length d) ds") auto
    with True Cons.prems have "cur_line = d # l" "r = c # rest" by simp_all
    with Cons.IH [of "cur_len + length d" l] lr show ?thesis by simp
  next
    case False
    with Cons.prems show ?thesis by simp
  qed
qed

lemma wrap_step_round:
  assumes "wrap_step width False h chunks = (cur_line, rest)" "chunks \<noteq> []"
  shows "\<exists>d1 d2. chunks = (d1 @ cur_line @ d2) @ rest
           \<and> list_all blank d1 \<and> list_all blank d2
           \<and> (length (concat cur_line) \<le> width \<or> length cur_line = 1)
           \<and> d1 @ cur_line @ d2 \<noteq> []
           \<and> (rest \<noteq> [] \<longrightarrow> width < length (concat (cur_line @ d2)) + length (hd rest))"
proof -
  from assms(1) obtain d1 cur_line1 chunks2 cur_line2 d2 where
    st: "chunks = d1 @ cur_line1 @ chunks2" "list_all blank d1"
    "take_fitting width 0 (cur_line1 @ chunks2) = (cur_line1, chunks2)"
    "(case chunks2 of
        [] \<Rightarrow> (cur_line1, chunks2)
      | c # cs \<Rightarrow>
          if length c > width
          then handle_long_word False chunks2 cur_line1 (sum_list (map length cur_line1)) width
          else (cur_line1, chunks2)) = (cur_line2, rest)"
    "cur_line2 = cur_line @ d2" "list_all blank d2"
    by (rule wrap_step_stages)
  have fits: "length (concat cur_line1) \<le> width"
    using take_fitting_fits [OF st(3)] by simp
  have stops: "width < length (concat cur_line1) + length c" if "chunks2 = c # cs" for c cs
    using take_fitting_stops [of width 0 "cur_line1 @ chunks2" cur_line1 c cs] st(3) that
    by simp
  have main: "cur_line2 @ rest = cur_line1 @ chunks2
      \<and> (length (concat cur_line2) \<le> width \<or> length cur_line2 = 1)
      \<and> (rest \<noteq> [] \<longrightarrow> width < length (concat cur_line2) + length (hd rest))"
  proof (cases chunks2)
    case Nil
    with st(4) fits show ?thesis by simp
  next
    case (Cons c cs)
    show ?thesis
    proof (cases "length c > width")
      case False
      with Cons st(4) fits stops [OF Cons] show ?thesis by auto
    next
      case True
      with Cons st(4) have "handle_long_word False (c # cs) cur_line1
          (sum_list (map length cur_line1)) width = (cur_line2, rest)" by simp
      from handle_long_word_keep [OF this] Cons fits True stops [OF Cons]
      show ?thesis by auto
    qed
  qed
  from main st(1,5) have 1: "chunks = (d1 @ cur_line @ d2) @ rest" by simp
  have 2: "length (concat cur_line) \<le> width \<or> length cur_line = 1"
  proof (cases "d2 = []")
    case True
    with main st(5) show ?thesis by simp
  next
    case False
    from main have "length (concat cur_line2) \<le> width \<or> length cur_line2 = 1" by simp
    then show ?thesis
    proof
      assume "length (concat cur_line2) \<le> width"
      with st(5) show ?thesis by simp
    next
      assume "length cur_line2 = 1"
      with st(5) False have "cur_line = []" by (cases d2) auto
      then show ?thesis by simp
    qed
  qed
  have 3: "d1 @ cur_line @ d2 \<noteq> []"
  proof
    assume "d1 @ cur_line @ d2 = []"
    with 1 have "rest = chunks" by simp
    with wrap_step_decreases [OF assms(2), of width False h] assms(1) show False by simp
  qed
  from main st(5) have 4: "rest \<noteq> [] \<longrightarrow> width < length (concat (cur_line @ d2)) + length (hd rest)"
    by simp
  from 1 2 3 4 st(2,6) show ?thesis by blast
qed

lemma hd_concat_pieces:
  assumes "rs \<noteq> []" "\<forall>r \<in> set rs. pieces r \<noteq> []"
  shows "hd (concat (map pieces rs)) = hd (pieces (rs ! 0))"
proof -
  obtain r rs' where rs: "rs = r # rs'" using assms(1) by (cases rs) auto
  with assms(2) have "pieces r \<noteq> []" by simp
  then show ?thesis by (simp add: rs)
qed

lemma wrap_loop_greedy:
  "\<exists>rounds.
     wrap_loop width False lines chunks
       = lines @ map concat (filter (\<lambda>g. g \<noteq> []) (map kept rounds))
     \<and> chunks = concat (map pieces rounds)
     \<and> (\<forall>r \<in> set rounds.
          pieces r \<noteq> [] \<and> list_all blank (dropped_before r) \<and> list_all blank (dropped_after r)
          \<and> (length (concat (kept r)) \<le> width \<or> length (kept r) = 1))
     \<and> (\<forall>i. Suc i < length rounds \<longrightarrow>
          width < length (concat (kept (rounds ! i) @ dropped_after (rounds ! i)))
                  + length (hd (pieces (rounds ! Suc i))))"
proof (induction lines chunks rule: wrap_loop_rounds [where width = width and b = False])
  case (empty lines)
  have "wrap_loop width False lines []
       = lines @ map concat (filter (\<lambda>g. g \<noteq> []) (map kept ([] :: round list)))
     \<and> [] = concat (map pieces ([] :: round list))"
    by (simp add: wrap_loop_Nil)
  then show ?case by (intro exI [of _ "[]"]) simp
next
  case (round lines chunks cur_line rest)
  from wrap_step_round [OF round(2,1)] obtain d1 d2 where
    d: "chunks = (d1 @ cur_line @ d2) @ rest" "list_all blank d1" "list_all blank d2"
      "length (concat cur_line) \<le> width \<or> length cur_line = 1"
      "d1 @ cur_line @ d2 \<noteq> []"
      "rest \<noteq> [] \<longrightarrow> width < length (concat (cur_line @ d2)) + length (hd rest)"
    by blast
  from round(3) obtain rounds where
    rs: "wrap_loop width False (if cur_line \<noteq> [] then lines @ [concat cur_line] else lines) rest
          = (if cur_line \<noteq> [] then lines @ [concat cur_line] else lines)
            @ map concat (filter (\<lambda>g. g \<noteq> []) (map kept rounds))"
      "rest = concat (map pieces rounds)"
      "\<forall>r \<in> set rounds.
          pieces r \<noteq> [] \<and> list_all blank (dropped_before r) \<and> list_all blank (dropped_after r)
          \<and> (length (concat (kept r)) \<le> width \<or> length (kept r) = 1)"
      "\<forall>i. Suc i < length rounds \<longrightarrow>
          width < length (concat (kept (rounds ! i) @ dropped_after (rounds ! i)))
                  + length (hd (pieces (rounds ! Suc i)))"
    by blast
  define r where "r = \<lparr>dropped_before = d1, kept = cur_line, dropped_after = d2\<rparr>"
  have r: "dropped_before r = d1" "kept r = cur_line" "dropped_after r = d2"
    "pieces r = d1 @ cur_line @ d2"
    by (simp_all add: r_def pieces_def)
  have 1: "wrap_loop width False lines chunks
       = lines @ map concat (filter (\<lambda>g. g \<noteq> []) (map kept (r # rounds)))"
    using rs(1) by (simp add: wrap_loop_step [OF round(1,2)] r)
  have 2: "chunks = concat (map pieces (r # rounds))"
    using d(1) rs(2) by (simp add: r)
  have 3: "\<forall>x \<in> set (r # rounds).
          pieces x \<noteq> [] \<and> list_all blank (dropped_before x) \<and> list_all blank (dropped_after x)
          \<and> (length (concat (kept x)) \<le> width \<or> length (kept x) = 1)"
    using rs(3) d(2,3,4,5) by (simp add: r)
  have 4: "width < length (concat (kept ((r # rounds) ! i) @ dropped_after ((r # rounds) ! i)))
                  + length (hd (pieces ((r # rounds) ! Suc i)))"
    if "Suc i < length (r # rounds)" for i
  proof (cases i)
    case 0
    with that have ne: "rounds \<noteq> []" by auto
    with rs(3) have "rest \<noteq> []"
      unfolding rs(2) by (cases rounds) auto
    with d(6) have "width < length (concat (cur_line @ d2)) + length (hd rest)" by simp
    moreover have "hd rest = hd (pieces (rounds ! 0))"
      unfolding rs(2) using hd_concat_pieces [OF ne] rs(3) by blast
    ultimately show ?thesis using 0 by (simp add: r)
  next
    case (Suc j)
    with that rs(4) show ?thesis by simp
  qed
  from 1 2 3 4 show ?case by blast
qed

section \<open>extract_video_id: the identifier returned\<close>

text \<open>
  C9. For every URL that contains "youtu.be", \<^verbatim>\<open>extract_video_id\<close> returns exactly
  the part of the URL after its last "/", with nothing stripped from it (a query or a
  fragment stays attached), and a URL ending in "/" gives the empty string. For a URL
  that contains neither "youtu.be" nor "youtube.com" it returns \<^verbatim>\<open>None\<close>.
\<close>

theorem extract_video_id_youtu_be:
  "(py_in ''youtu.be'' url \<longrightarrow>
      (\<exists>pre r. url = pre @ r \<and> CHR ''/'' \<notin> set r \<and> (pre = [] \<or> last pre = CHR ''/'')
         \<and> extract_video_id url qs = Inr (Some r))
      \<and> (last url = CHR ''/'' \<longrightarrow> extract_video_id url qs = Inr (Some [])))
   \<and> (\<not> py_in ''youtu.be'' url \<and> \<not> py_in ''youtube.com'' url \<longrightarrow>
        extract_video_id url qs = Inr None)"
proof (intro conjI impI)
  assume yb: "py_in ''youtu.be'' url"
  obtain pre where "url = pre @ last (py_split (CHR ''/'') url)" "pre = [] \<or> last pre = CHR ''/''"
    using py_split_last_suffix by blast
  then show "\<exists>pre r. url = pre @ r \<and> CHR ''/'' \<notin> set r \<and> (pre = [] \<or> last pre = CHR ''/'')
         \<and> extract_video_id url qs = Inr (Some r)"
    using youtu_be_branch [OF yb] py_split_last_no_sep [of "CHR ''/''" url] by blast
  assume "last url = CHR ''/''"
  then show "extract_video_id url qs = Inr (Some [])"
    using youtu_be_branch [OF yb, of qs] last_py_split_empty_iff [of "CHR ''/''" url] by simp
next
  assume "\<not> py_in ''youtu.be'' url \<and> \<not> py_in ''youtube.com'' url"
  then show "extract_video_id url qs = Inr None" by (simp add: extract_video_id_def)
qed

theorem extract_video_id_youtu_be_witness:
  "py_in ''youtu.be'' ''https://youtu.be/abc?t=5#x''
   \<and> extract_video_id ''https://youtu.be/abc?t=5#x'' (Inr []) = Inr (Some ''abc?t=5#x'')
   \<and> py_in ''youtu.be'' ''https://youtu.be/''
   \<and> extract_video_id ''https://youtu.be/'' (Inr []) = Inr (Some [])
   \<and> \<not> py_in ''youtu.be'' ''https://vimeo.com/1'' \<and> \<not> py_in ''youtube.com'' ''https://vimeo.com/1''
   \<and> extract_video_id ''https://vimeo.com/1'' (Inr []) = Inr None"
  using extract_video_id_youtu_be [of "''https://youtu.be/abc?t=5#x''" "Inr []"]
    extract_video_id_youtu_be [of "''https://youtu.be/''" "Inr []"]
    extract_video_id_youtu_be [of "''https://vimeo.com/1''" "Inr []"]
  by (simp add: extract_video_id_def py_last_def)

text \<open>
  C7 as stated fails: for the URL "https://youtu.be/" the function succeeds with the
  empty string as the identifier.
\<close>

theorem extract_video_id_empty_identifier:
  "extract_video_id ''https://youtu.be/'' (Inr []) = Inr (Some [])"
  by (simp add: extract_video_id_def py_last_def)

text \<open>
  C7, amended. When \<^verbatim>\<open>extract_video_id\<close> returns an identifier, the identifier is
  empty exactly when the URL contains "youtu.be" and ends in "/"; in every other case
  it is non-empty (the query parser keeps no blank value). The caller's test
  \<^verbatim>\<open>if not video_id\<close> rejects \<^verbatim>\<open>None\<close> and the empty string alike, so only a
  non-empty identifier is accepted.
\<close>

theorem extract_video_id_nonempty_unless_trailing_slash:
  "no_blank_values qs \<longrightarrow>
     (\<forall>s. extract_video_id url qs = Inr (Some s) \<longrightarrow>
        (s = [] \<longleftrightarrow> py_in ''youtu.be'' url \<and> last url = CHR ''/''))
     \<and> (\<forall>v. extract_video_id url qs = Inr v \<longrightarrow>
          (video_id_accepted v \<longleftrightarrow> v \<noteq> None \<and> v \<noteq> Some []))"
proof (intro impI conjI allI)
  fix s
  assume nb: "no_blank_values qs" and r: "extract_video_id url qs = Inr (Some s)"
  show "s = [] \<longleftrightarrow> py_in ''youtu.be'' url \<and> last url = CHR ''/''"
  proof (cases "py_in ''youtu.be'' url")
    case True
    then have "url \<noteq> []" by (auto simp: py_in_iff)
    with True r show ?thesis
      using youtu_be_branch [OF True, of qs] last_py_split_empty_iff [of "CHR ''/''" url] by auto
  next
    case False
    with r obtain d where d: "qs = Inr d"
      by (cases qs) (auto simp: extract_video_id_def split: if_splits)
    with r False obtain vs where vs: "map_of d ''v'' = Some vs" "py_first (map Some vs) = Inr (Some s)"
      by (auto simp: extract_video_id_def py_first_def
            split: if_splits option.splits sum.splits list.splits)
    from vs(1) have "(''v'', vs) \<in> set d" by (rule map_of_SomeD)
    with nb d have "list_all (\<lambda>v. v \<noteq> []) vs" by (auto simp: no_blank_values_def list_all_iff)
    with vs(2) have "s \<noteq> []" by (cases vs) (auto simp: py_first_def)
    with False show ?thesis by simp
  qed
next
  fix v
  show "video_id_accepted v \<longleftrightarrow> v \<noteq> None \<and> v \<noteq> Some []"
    by (cases v) (auto simp: video_id_accepted_def)
qed

theorem extract_video_id_nonempty_unless_trailing_slash_witness:
  "no_blank_values (Inr [(''v'', [''abc''])])
   \<and> extract_video_id ''https://www.youtube.com/watch?v=abc'' (Inr [(''v'', [''abc''])])
       = Inr (Some ''abc'')
   \<and> \<not> py_in ''youtu.be'' ''https://www.youtube.com/watch?v=abc''
   \<and> ''abc'' \<noteq> []
   \<and> video_id_accepted (Some ''abc'')"
  using extract_video_id_nonempty_unless_trailing_slash
    [of "Inr [(''v'', [''abc''])]" "''https://www.youtube.com/watch?v=abc''"]
  by (simp add: extract_video_id_def py_first_def no_blank_values_def video_id_accepted_def)

section \<open>get_transcript: a transcript or None\<close>

lemma entry_texts_str_items:
  "(\<exists>vs. entry_texts entries = Inr vs \<and> str_items vs = Inr texts)
     \<longleftrightarrow> map (\<lambda>e. map_of e ''text'') entries = map (\<lambda>t. Some (PyStr t)) texts"
proof (induction entries arbitrary: texts)
  case Nil
  then show ?case by auto
next
  case (Cons e es)
  show ?case
  proof (cases "map_of e ''text''")
    case None
    then show ?thesis by (auto simp: entry_text_def)
  next
    case (Some v)
    show ?thesis
    proof (cases v)
      case PyOther
      with Some show ?thesis
        by (auto simp: entry_text_def split: sum.splits)
    next
      case (PyStr t)
      show ?thesis
      proof (cases texts)
        case Nil
        with Some PyStr show ?thesis
          by (auto simp: entry_text_def split: sum.splits)
      next
        case (Cons u us)
        with Some PyStr Cons.IH [of us] show ?thesis
          by (auto simp: entry_text_def split: sum.splits)
      qed
    qed
  qed
qed

lemma get_transcript_try_Inr:
  "get_transcript_try fetched = Inr s \<longleftrightarrow>
     (\<exists>entries texts. fetched = Inr entries
        \<and> map (\<lambda>e. map_of e ''text'') entries = map (\<lambda>t. Some (PyStr t)) texts
        \<and> s = py_join nl texts)"
proof
  assume "get_transcript_try fetched = Inr s"
  then obtain entries vs texts where "fetched = Inr entries" "entry_texts entries = Inr vs"
      "str_items vs = Inr texts" "s = py_join nl texts"
    by (auto simp: get_transcript_try_def split: sum.splits)
  then show "\<exists>entries texts. fetched = Inr entries
        \<and> map (\<lambda>e. map_of e ''text'') entries = map (\<lambda>t. Some (PyStr t)) texts
        \<and> s = py_join nl texts"
    using entry_texts_str_items [of entries texts] by blast
next
  assume "\<exists>entries texts. fetched = Inr entries
        \<and> map (\<lambda>e. map_of e ''text'') entries = map (\<lambda>t. Some (PyStr t)) texts
        \<and> s = py_join nl texts"
  then obtain entries texts where f: "fetched = Inr entries"
      and m: "map (\<lambda>e. map_of e ''text'') entries = map (\<lambda>t. Some (PyStr t)) texts"
      and s: "s = py_join nl texts" by blast
  from m obtain vs where "entry_texts entries = Inr vs" "str_items vs = Inr texts"
    using entry_texts_str_items [of entries texts] by blast
  with f s show "get_transcript_try fetched = Inr s"
    by (simp add: get_transcript_try_def)
qed

text \<open>
  C4. For every answer of the provider, \<^verbatim>\<open>get_transcript\<close> returns a value and
  raises nothing: the transcript lines joined by line feeds when the provider gave
  caption entries with text, and \<^verbatim>\<open>None\<close> otherwise. Transcripts disabled or not
  found give \<^verbatim>\<open>None\<close> silently; any other failure gives \<^verbatim>\<open>None\<close> too, with one
  informational message and nothing else.
\<close>

theorem get_transcript_never_raises:
  "(\<exists>r msgs. get_transcript fetched = (Inr r, msgs))
   \<and> (fetched = Inl TranscriptsDisabled \<or> fetched = Inl NoTranscriptFound \<longrightarrow>
        get_transcript fetched = (Inr None, []))
   \<and> (\<forall>e. fetched = Inl e \<longrightarrow>
        fst (get_transcript fetched) = Inr None \<and> length (snd (get_transcript fetched)) \<le> 1)
   \<and> (\<forall>s. fst (get_transcript fetched) = Inr (Some s) \<longleftrightarrow>
        (\<exists>entries texts. fetched = Inr entries
           \<and> map (\<lambda>e. map_of e ''text'') entries = map (\<lambda>t. Some (PyStr t)) texts
           \<and> s = py_join nl texts))"
proof (intro conjI allI impI)
  show "\<exists>r msgs. get_transcript fetched = (Inr r, msgs)"
    by (simp add: get_transcript_def split: sum.splits)
next
  assume "fetched = Inl TranscriptsDisabled \<or> fetched = Inl NoTranscriptFound"
  then show "get_transcript fetched = (Inr None, [])"
    by (auto simp: get_transcript_def get_transcript_try_def)
next
  fix e
  assume "fetched = Inl e"
  then show "fst (get_transcript fetched) = Inr None"
    by (simp add: get_transcript_def get_transcript_try_def)
next
  fix e
  assume "fetched = Inl e"
  then show "length (snd (get_transcript fetched)) \<le> 1"
    by (simp add: get_transcript_def get_transcript_try_def)
next
  fix s
  have "fst (get_transcript fetched) = Inr (Some s) \<longleftrightarrow> get_transcript_try fetched = Inr s"
    by (auto simp: get_transcript_def split: sum.splits)
  then show "fst (get_transcript fetched) = Inr (Some s) \<longleftrightarrow>
        (\<exists>entries texts. fetched = Inr entries
           \<and> map (\<lambda>e. map_of e ''text'') entries = map (\<lambda>t. Some (PyStr t)) texts
           \<and> s = py_join nl texts)"
    using get_transcript_try_Inr [of fetched s] by simp
qed

theorem get_transcript_never_raises_witness:
  "get_transcript (Inl TranscriptsDisabled) = (Inr None, [])
   \<and> get_transcript (Inl NoTranscriptFound) = (Inr None, [])
   \<and> fst (get_transcript (Inl (OtherException ''network down''))) = Inr None
   \<and> get_transcript (Inr [[(''text'', PyStr ''hello''), (''start'', PyOther)],
                           [(''text'', PyStr ''world'')]])
       = (Inr (Some ''hello\<newline>world''), [])
   \<and> fst (get_transcript (Inr [[(''start'', PyOther)]])) = Inr None"
  using get_transcript_never_raises [of "Inl TranscriptsDisabled"]
    get_transcript_never_raises [of "Inl NoTranscriptFound"]
    get_transcript_never_raises [of "Inl (OtherException ''network down'')"]
  by (simp add: get_transcript_def get_transcript_try_def entry_text_def nl_def)

section \<open>summarize_text: the requests sent and the report\<close>

lemma summarize_chunks_log:
  "snd (summarize_chunks gen log chunks acc) = log @ map chunk_prompt chunks"
  by (induction chunks arbitrary: log acc)
     (auto simp: generate_content_def split: gen_result.splits)

lemma summarize_chunks_extends:
  "\<exists>new. fst (summarize_chunks gen log chunks acc) = acc @ new \<and> length new = length chunks"
proof (induction chunks arbitrary: log acc)
  case Nil
  then show ?case by simp
next
  case (Cons c cs)
  show ?case
  proof (cases "gen log (chunk_prompt c)")
    case (Raises e)
    from Cons [of "log @ [chunk_prompt c]" "acc @ [''Error summarizing this chunk.'']"]
    obtain new where "fst (summarize_chunks gen (log @ [chunk_prompt c]) cs
        (acc @ [''Error summarizing this chunk.''])) = (acc @ [''Error summarizing this chunk.'']) @ new"
      "length new = length cs" by blast
    with Raises show ?thesis by (simp add: generate_content_def)
  next
    case (Returns t)
    from Cons [of "log @ [chunk_prompt c]" "acc @ [py_strip t]"]
    obtain new where "fst (summarize_chunks gen (log @ [chunk_prompt c]) cs
        (acc @ [py_strip t])) = (acc @ [py_strip t]) @ new"
      "length new = length cs" by blast
    with Returns show ?thesis by (simp add: generate_content_def)
  qed
qed

lemma summarize_chunks_length:
  "length (fst (summarize_chunks gen log chunks acc)) = length acc + length chunks"
  using summarize_chunks_extends [of gen log chunks acc] by auto

lemma summarize_chunks_keeps:
  "i < length acc \<Longrightarrow> fst (summarize_chunks gen log chunks acc) ! i = acc ! i"
  using summarize_chunks_extends [of gen log chunks acc] by (auto simp: nth_append)

lemma summarize_chunks_nth:
  "i < length chunks \<Longrightarrow>
     fst (summarize_chunks gen log chunks acc) ! (length acc + i) =
       (case gen (log @ map chunk_prompt (take i chunks)) (chunk_prompt (chunks ! i)) of
          Raises e \<Rightarrow> ''Error summarizing this chunk.''
        | Returns t \<Rightarrow> py_strip t)"
proof (induction chunks arbitrary: log acc i)
  case Nil
  then show ?case by simp
next
  case (Cons c cs)
  define x where "x = (case gen log (chunk_prompt c) of
          Raises e \<Rightarrow> ''Error summarizing this chunk.''
        | Returns t \<Rightarrow> py_strip t)"
  have step: "summarize_chunks gen log (c # cs) acc
      = summarize_chunks gen (log @ [chunk_prompt c]) cs (acc @ [x])"
    by (simp add: generate_content_def x_def split: gen_result.splits)
  show ?case
  proof (cases i)
    case 0
    have "fst (summarize_chunks gen (log @ [chunk_prompt c]) cs (acc @ [x])) ! length acc
        = (acc @ [x]) ! length acc"
      by (rule summarize_chunks_keeps) simp
    with 0 step show ?thesis by (simp add: x_def)
  next
    case (Suc j)
    with Cons.prems have j: "j < length cs" by simp
    have "fst (summarize_chunks gen (log @ [chunk_prompt c]) cs (acc @ [x])) ! (length (acc @ [x]) + j)
        = (case gen ((log @ [chunk_prompt c]) @ map chunk_prompt (take j cs)) (chunk_prompt (cs ! j)) of
          Raises e \<Rightarrow> ''Error summarizing this chunk.''
        | Returns t \<Rightarrow> py_strip t)"
      by (rule Cons.IH [OF j])
    with Suc step show ?thesis by simp
  qed
qed

lemma chunk_prompt_not_final: "chunk_prompt c \<noteq> final_prompt n"
  by (simp add: chunk_prompt_def final_prompt_def)

lemma summarize_text_chunked:
  assumes "chunk_size < int (length text)" "textwrap_wrap text chunk_size False = Inr chunks"
  shows "snd (summarize_text gen text chunk_size)
           = map chunk_prompt chunks
             @ [final_prompt (py_join nl (fst (summarize_chunks gen [] chunks [])))]"
    and "\<exists>report. fst (summarize_text gen text chunk_size) = Inr report"
proof -
  obtain summaries log where sc: "summarize_chunks gen [] chunks [] = (summaries, log)"
    by (cases "summarize_chunks gen [] chunks []") auto
  then have log: "log = map chunk_prompt chunks"
    using summarize_chunks_log [of gen "[]" chunks "[]"] by simp
  from assms sc log show "snd (summarize_text gen text chunk_size)
           = map chunk_prompt chunks
             @ [final_prompt (py_join nl (fst (summarize_chunks gen [] chunks [])))]"
    by (simp add: summarize_text_def generate_content_def split: gen_result.splits)
  from assms sc show "\<exists>report. fst (summarize_text gen text chunk_size) = Inr report"
    by (simp add: summarize_text_def generate_content_def split: gen_result.splits)
qed

lemma textwrap_wrap_positive:
  "0 < width \<Longrightarrow> \<exists>lines. textwrap_wrap text width b = Inr lines"
  by (simp add: textwrap_wrap_def wrap_chunks_def)

text \<open>
  C2. For every text no longer than the chunk width, the empty text included,
  \<^verbatim>\<open>summarize_text\<close> sends exactly one request, the direct prompt for the whole
  text, and no chunk or combination request; when the request succeeds the value
  returned is the model's text, stripped, under the header "### Video Summary Report".
\<close>

theorem summarize_text_direct_mode:
  "int (length text) \<le> chunk_size \<longrightarrow>
     snd (summarize_text gen text chunk_size) = [direct_prompt text]
     \<and> (\<forall>response. gen [] (direct_prompt text) = Returns response \<longrightarrow>
          fst (summarize_text gen text chunk_size)
            = Inr (''### Video Summary Report\<newline>\<newline>'' @ py_strip response))"
  by (auto simp: summarize_text_def generate_content_def report_header_def
        split: gen_result.splits)

theorem summarize_text_direct_mode_witness:
  "int (length '''') \<le> 2000
   \<and> summarize_text fixed_service '''' 2000
       = (Inr ''### Video Summary Report\<newline>\<newline>- a point'', [direct_prompt ''''])
   \<and> int (length ''aaa bbb'') \<le> 7
   \<and> snd (summarize_text fixed_service ''aaa bbb'' 7) = [direct_prompt ''aaa bbb'']"
  using summarize_text_direct_mode [of "''''" 2000 fixed_service]
    summarize_text_direct_mode [of "''aaa bbb''" 7 fixed_service]
  by (simp add: summarize_text_def generate_content_def fixed_service_def report_header_def
        py_strip_def py_isspace_def)

text \<open>
  C5. In direct mode, when the one request fails, \<^verbatim>\<open>summarize_text\<close> raises
  nothing: it returns a string, the cross mark and " Error generating summary: "
  followed by the text of the exception.
\<close>

theorem summarize_text_direct_failure:
  "int (length text) \<le> chunk_size \<and> gen [] (direct_prompt text) = Raises e \<longrightarrow>
     summarize_text gen text chunk_size
       = (Inr (cross_mark @ '' Error generating summary: '' @ e), [direct_prompt text])"
  by (auto simp: summarize_text_def generate_content_def)

theorem summarize_text_direct_failure_witness:
  "int (length ''aaa bbb'') \<le> 2000
   \<and> failing_service [] (direct_prompt ''aaa bbb'') = Raises ''quota exceeded''
   \<and> fst (summarize_text failing_service ''aaa bbb'' 2000)
       = Inr (cross_mark @ '' Error generating summary: quota exceeded'')"
  using summarize_text_direct_failure [of "''aaa bbb''" 2000 failing_service "''quota exceeded''"]
  by (simp add: failing_service_def)

text \<open>
  C8. In chunked mode with a positive width, \<^verbatim>\<open>summarize_text\<close> sends one request
  per chunk, in order, and appends exactly one entry per chunk, so the combination
  input has as many entries as there are chunks; then it sends the combination
  request, exactly once and last, whatever the per-chunk requests did.
\<close>

theorem summarize_text_one_entry_per_chunk:
  "chunk_size < int (length text) \<and> 0 < chunk_size \<longrightarrow>
     (\<exists>chunks summaries.
        textwrap_wrap text chunk_size False = Inr chunks
        \<and> fst (summarize_chunks gen [] chunks []) = summaries
        \<and> length summaries = length chunks
        \<and> snd (summarize_text gen text chunk_size)
            = map chunk_prompt chunks @ [final_prompt (py_join nl summaries)]
        \<and> length (filter (\<lambda>p. \<exists>notes. p = final_prompt notes)
                     (snd (summarize_text gen text chunk_size))) = 1)"
proof
  assume a: "chunk_size < int (length text) \<and> 0 < chunk_size"
  then obtain chunks where w: "textwrap_wrap text chunk_size False = Inr chunks"
    using textwrap_wrap_positive [of chunk_size "text" False] by blast
  define summaries where "summaries = fst (summarize_chunks gen [] chunks [])"
  have len: "length summaries = length chunks"
    using summarize_chunks_length [of gen "[]" chunks "[]"] by (simp add: summaries_def)
  have log: "snd (summarize_text gen text chunk_size)
      = map chunk_prompt chunks @ [final_prompt (py_join nl summaries)]"
    using summarize_text_chunked(1) [of chunk_size "text" chunks gen] a w
    by (simp add: summaries_def)
  have "filter (\<lambda>p. \<exists>notes. p = final_prompt notes) (map chunk_prompt chunks) = []"
    by (auto simp: filter_empty_conv chunk_prompt_not_final)
  moreover have "\<exists>notes. final_prompt (py_join nl summaries) = final_prompt notes"
    by blast
  ultimately have "length (filter (\<lambda>p. \<exists>notes. p = final_prompt notes)
      (snd (summarize_text gen text chunk_size))) = 1"
    by (simp add: log)
  with w len log show "\<exists>chunks summaries.
        textwrap_wrap text chunk_size False = Inr chunks
        \<and> fst (summarize_chunks gen [] chunks []) = summaries
        \<and> length summaries = length chunks
        \<and> snd (summarize_text gen text chunk_size)
            = map chunk_prompt chunks @ [final_prompt (py_join nl summaries)]
        \<and> length (filter (\<lambda>p. \<exists>notes. p = final_prompt notes)
                     (snd (summarize_text gen text chunk_size))) = 1"
    by (simp add: summaries_def)
qed

theorem summarize_text_one_entry_per_chunk_witness:
  "3 < int (length ''aaa bbb'') \<and> (0::int) < 3
   \<and> textwrap_wrap ''aaa bbb'' 3 False = Inr [''aaa'', ''bbb'']
   \<and> length (fst (summarize_chunks failing_service [] [''aaa'', ''bbb''] [])) = 2
   \<and> length (snd (summarize_text failing_service ''aaa bbb'' 3)) = 3"
proof -
  have w: "textwrap_wrap ''aaa bbb'' 3 False = Inr [''aaa'', ''bbb'']"
    by code_simp
  from summarize_text_one_entry_per_chunk [of 3 "''aaa bbb''" failing_service] w
  show ?thesis by auto
qed

text \<open>
  C3 as stated fails on the literal: the entry for a failing chunk is
  "Error summarizing this chunk." with a full stop, not "Error summarizing this chunk".
\<close>

theorem summarize_text_placeholder_has_full_stop:
  "last (snd (summarize_text second_request_fails ''aaa bbb ccc'' 3))
     = final_prompt ''first\<newline>Error summarizing this chunk.\<newline>later''
   \<and> last (snd (summarize_text second_request_fails ''aaa bbb ccc'' 3))
     \<noteq> final_prompt ''first\<newline>Error summarizing this chunk\<newline>later''"
  by code_simp

text \<open>
  C3, amended. In chunked mode with a positive width, whatever requests fail,
  \<^verbatim>\<open>summarize_text\<close> completes with a string. The combination input is the entries
  of the chunks in the order of the chunks, joined by line feeds; the entry of a chunk
  whose request failed is the literal "Error summarizing this chunk." (with the full
  stop), the entry of every other chunk is the stripped text the service returned for
  it.
\<close>

theorem summarize_text_failing_chunk:
  "chunk_size < int (length text) \<and> 0 < chunk_size \<longrightarrow>
     (\<exists>chunks summaries.
        textwrap_wrap text chunk_size False = Inr chunks
        \<and> length summaries = length chunks
        \<and> (\<forall>i < length chunks.
              summaries ! i =
                (case gen (map chunk_prompt (take i chunks)) (chunk_prompt (chunks ! i)) of
                   Raises e \<Rightarrow> ''Error summarizing this chunk.''
                 | Returns t \<Rightarrow> py_strip t))
        \<and> last (snd (summarize_text gen text chunk_size)) = final_prompt (py_join nl summaries)
        \<and> (\<exists>report. fst (summarize_text gen text chunk_size) = Inr report))"
proof
  assume a: "chunk_size < int (length text) \<and> 0 < chunk_size"
  then obtain chunks where w: "textwrap_wrap text chunk_size False = Inr chunks"
    using textwrap_wrap_positive [of chunk_size "text" False] by blast
  define summaries where "summaries = fst (summarize_chunks gen [] chunks [])"
  have len: "length summaries = length chunks"
    using summarize_chunks_length [of gen "[]" chunks "[]"] by (simp add: summaries_def)
  have nth: "\<forall>i < length chunks.
              summaries ! i =
                (case gen (map chunk_prompt (take i chunks)) (chunk_prompt (chunks ! i)) of
                   Raises e \<Rightarrow> ''Error summarizing this chunk.''
                 | Returns t \<Rightarrow> py_strip t)"
    using summarize_chunks_nth [of _ chunks gen "[]" "[]"] by (simp add: summaries_def)
  have log: "last (snd (summarize_text gen text chunk_size)) = final_prompt (py_join nl summaries)"
    using summarize_text_chunked(1) [of chunk_size "text" chunks gen] a w
    by (simp add: summaries_def)
  have res: "\<exists>report. fst (summarize_text gen text chunk_size) = Inr report"
    using summarize_text_chunked(2) [of chunk_size "text" chunks gen] a w by simp
  from w len nth log res show "\<exists>chunks summaries.
        textwrap_wrap text chunk_size False = Inr chunks
        \<and> length summaries = length chunks
        \<and> (\<forall>i < length chunks.
              summaries ! i =
                (case gen (map chunk_prompt (take i chunks)) (chunk_prompt (chunks ! i)) of
                   Raises e \<Rightarrow> ''Error summarizing this chunk.''
                 | Returns t \<Rightarrow> py_strip t))
        \<and> last (snd (summarize_text gen text chunk_size)) = final_prompt (py_join nl summaries)
        \<and> (\<exists>report. fst (summarize_text gen text chunk_size) = Inr report)"
    by blast
qed

theorem summarize_text_failing_chunk_witness:
  "3 < int (length ''aaa bbb ccc'') \<and> (0::int) < 3
   \<and> textwrap_wrap ''aaa bbb ccc'' 3 False = Inr [''aaa'', ''bbb'', ''ccc'']
   \<and> second_request_fails (map chunk_prompt (take 1 [''aaa'', ''bbb'', ''ccc'']))
        (chunk_prompt ([''aaa'', ''bbb'', ''ccc''] ! 1)) = Raises ''timed out''
   \<and> summarize_text second_request_fails ''aaa bbb ccc'' 3
       = (Inr ''### Video Summary Report\<newline>\<newline>later'',
          [chunk_prompt ''aaa'', chunk_prompt ''bbb'', chunk_prompt ''ccc'',
           final_prompt ''first\<newline>Error summarizing this chunk.\<newline>later''])"
proof -
  have w: "textwrap_wrap ''aaa bbb ccc'' 3 False = Inr [''aaa'', ''bbb'', ''ccc'']"
    by code_simp
  have r: "summarize_text second_request_fails ''aaa bbb ccc'' 3
       = (Inr ''### Video Summary Report\<newline>\<newline>later'',
          [chunk_prompt ''aaa'', chunk_prompt ''bbb'', chunk_prompt ''ccc'',
           final_prompt ''first\<newline>Error summarizing this chunk.\<newline>later''])"
    by code_simp
  have f: "second_request_fails (map chunk_prompt (take 1 [''aaa'', ''bbb'', ''ccc'']))
        (chunk_prompt ([''aaa'', ''bbb'', ''ccc''] ! 1)) = Raises ''timed out''"
    by (simp add: second_request_fails_def)
  from summarize_text_failing_chunk [of 3 "''aaa bbb ccc''" second_request_fails] w r f
  show ?thesis by simp
qed

section \<open>summarize_text: the chunks of a long transcript\<close>

text \<open>
  A width that is not positive is outside the contract: \<^verbatim>\<open>textwrap.wrap\<close> raises
  ValueError, which \<^verbatim>\<open>summarize_text\<close> does not catch, and no request is sent.
\<close>

lemma summarize_text_nonpositive_width:
  "chunk_size \<le> 0 \<Longrightarrow> chunk_size < int (length text) \<Longrightarrow>
     summarize_text gen text chunk_size = (Inl ValueError, [])"
  by (simp add: summarize_text_def textwrap_wrap_def wrap_chunks_def)

text \<open>
  C1 as stated fails. A word longer than the width is kept whole, so a chunk can be
  longer than the width; and a hyphenated word is divided after its hyphen.
\<close>

theorem transcript_chunks_not_bounded:
  "textwrap_wrap ''abcdef'' 3 False = Inr [''abcdef'']
   \<and> \<not> length ''abcdef'' \<le> 3
   \<and> snd (summarize_text fixed_service ''abcdef'' 3)
       = [chunk_prompt ''abcdef'', final_prompt ''- a point'']
   \<and> textwrap_wrap ''well-known'' 6 False = Inr [''well-'', ''known'']"
  by code_simp

text \<open>
  C1, amended. For a positive width and a text longer than it, \<^verbatim>\<open>summarize_text\<close>
  sends one request per chunk of \<^verbatim>\<open>textwrap.wrap(text, width, break_long_words=False)\<close>.
  The wrapper's splitter cuts the text into pieces, only beside a whitespace character
  or beside a hyphen, so a word is divided only at a hyphen. The loop uses the pieces up
  in order, round by round: a round drops a blank piece before its line, keeps whole
  pieces as the line, and drops a blank piece after it; no piece is cut, and the chunks
  are the lines of the rounds that kept something. A chunk is at most as long as the
  width unless it is one single piece. The filling is greedy: the line of a round,
  with the blank piece dropped after it, has no room for the piece that comes next.
  Joining the chunks with single spaces gives the text back up to whitespace.
\<close>

theorem transcript_chunks_whole_pieces:
  "0 < chunk_size \<and> chunk_size < int (length text) \<longrightarrow>
     (\<exists>rounds.
        textwrap_wrap text chunk_size False
          = Inr (map concat (filter (\<lambda>g. g \<noteq> []) (map kept rounds)))
        \<and> butlast (snd (summarize_text gen text chunk_size))
            = map chunk_prompt (map concat (filter (\<lambda>g. g \<noteq> []) (map kept rounds)))
        \<and> split_chunks text = concat (map pieces rounds)
        \<and> (\<forall>r \<in> set rounds.
              list_all blank (dropped_before r) \<and> list_all blank (dropped_after r)
              \<and> (int (length (concat (kept r))) \<le> chunk_size \<or> length (kept r) = 1))
        \<and> (\<forall>i. Suc i < length rounds \<longrightarrow>
              chunk_size < int (length (concat (kept (rounds ! i) @ dropped_after (rounds ! i))))
                           + int (length (hd (pieces (rounds ! Suc i))))))
     \<and> concat (split_chunks text) = munge_whitespace text
     \<and> (\<forall>ps p q qs. split_chunks text = ps @ p # q # qs \<longrightarrow>
           ascii_ws (last p) \<or> ascii_ws (hd q) \<or> last p = CHR ''-'' \<or> hd q = CHR ''-'')
     \<and> (\<forall>chunks. textwrap_wrap text chunk_size False = Inr chunks \<longrightarrow>
           filter (\<lambda>c. \<not> py_isspace c) (py_join '' '' chunks)
             = filter (\<lambda>c. \<not> py_isspace c) text)"
proof (intro impI conjI allI)
  assume a: "0 < chunk_size \<and> chunk_size < int (length text)"
  obtain rounds where
    g: "wrap_loop (nat chunk_size) False [] (split_chunks text)
          = [] @ map concat (filter (\<lambda>g. g \<noteq> []) (map kept rounds))"
      "split_chunks text = concat (map pieces rounds)"
      "\<forall>r \<in> set rounds.
          pieces r \<noteq> [] \<and> list_all blank (dropped_before r) \<and> list_all blank (dropped_after r)
          \<and> (length (concat (kept r)) \<le> nat chunk_size \<or> length (kept r) = 1)"
      "\<forall>i. Suc i < length rounds \<longrightarrow>
          nat chunk_size < length (concat (kept (rounds ! i) @ dropped_after (rounds ! i)))
                  + length (hd (pieces (rounds ! Suc i)))"
    using wrap_loop_greedy [of "nat chunk_size" "[]" "split_chunks text"] by blast
  have w: "textwrap_wrap text chunk_size False
      = Inr (map concat (filter (\<lambda>g. g \<noteq> []) (map kept rounds)))"
    using a g(1) by (simp add: textwrap_wrap_def wrap_chunks_def)
  have log: "butlast (snd (summarize_text gen text chunk_size))
      = map chunk_prompt (map concat (filter (\<lambda>g. g \<noteq> []) (map kept rounds)))"
    using summarize_text_chunked(1)
      [of chunk_size "text" "map concat (filter (\<lambda>g. g \<noteq> []) (map kept rounds))" gen] a w
    by simp
  have bound: "\<forall>r \<in> set rounds.
              list_all blank (dropped_before r) \<and> list_all blank (dropped_after r)
              \<and> (int (length (concat (kept r))) \<le> chunk_size \<or> length (kept r) = 1)"
    using g(3) a by auto
  have greedy: "\<forall>i. Suc i < length rounds \<longrightarrow>
              chunk_size < int (length (concat (kept (rounds ! i) @ dropped_after (rounds ! i))))
                           + int (length (hd (pieces (rounds ! Suc i))))"
  proof (intro allI impI)
    fix i
    assume "Suc i < length rounds"
    with g(4) have "nat chunk_size
        < length (concat (kept (rounds ! i) @ dropped_after (rounds ! i)))
          + length (hd (pieces (rounds ! Suc i)))" by blast
    with a show "chunk_size < int (length (concat (kept (rounds ! i) @ dropped_after (rounds ! i))))
                           + int (length (hd (pieces (rounds ! Suc i))))" by linarith
  qed
  from w log g(2) bound greedy
  show "\<exists>rounds.
        textwrap_wrap text chunk_size False
          = Inr (map concat (filter (\<lambda>g. g \<noteq> []) (map kept rounds)))
        \<and> butlast (snd (summarize_text gen text chunk_size))
            = map chunk_prompt (map concat (filter (\<lambda>g. g \<noteq> []) (map kept rounds)))
        \<and> split_chunks text = concat (map pieces rounds)
        \<and> (\<forall>r \<in> set rounds.
              list_all blank (dropped_before r) \<and> list_all blank (dropped_after r)
              \<and> (int (length (concat (kept r))) \<le> chunk_size \<or> length (kept r) = 1))
        \<and> (\<forall>i. Suc i < length rounds \<longrightarrow>
              chunk_size < int (length (concat (kept (rounds ! i) @ dropped_after (rounds ! i))))
                           + int (length (hd (pieces (rounds ! Suc i)))))"
    by blast
next
  show "concat (split_chunks text) = munge_whitespace text"
    by (rule concat_split_chunks)
next
  fix ps p q qs
  assume "split_chunks text = ps @ p # q # qs"
  then show "ascii_ws (last p) \<or> ascii_ws (hd q) \<or> last p = CHR ''-'' \<or> hd q = CHR ''-''"
    by (rule split_chunks_cut)
next
  fix chunks
  assume a: "0 < chunk_size \<and> chunk_size < int (length text)"
    and w: "textwrap_wrap text chunk_size False = Inr chunks"
  then have c: "chunks = wrap_loop (nat chunk_size) False [] (split_chunks text)"
    by (simp add: textwrap_wrap_def wrap_chunks_def)
  have "filter (\<lambda>c. \<not> py_isspace c) (py_join '' '' chunks)
      = filter (\<lambda>c. \<not> py_isspace c) (concat chunks)"
    by (rule py_join_content) (simp add: isspace_space)
  also have "\<dots> = filter (\<lambda>c. \<not> py_isspace c) text"
    unfolding c by (rule wrap_content)
  finally show "filter (\<lambda>c. \<not> py_isspace c) (py_join '' '' chunks)
      = filter (\<lambda>c. \<not> py_isspace c) text" .
qed

theorem transcript_chunks_whole_pieces_witness:
  "(0::int) < 9 \<and> 9 < int (length ''Hello  world. Hello again.'')
   \<and> textwrap_wrap ''Hello  world. Hello again.'' 9 False
       = Inr [''Hello'', ''world.'', ''Hello'', ''again.'']
   \<and> (\<exists>rounds. map concat (filter (\<lambda>g. g \<noteq> []) (map kept rounds))
                 = [''Hello'', ''world.'', ''Hello'', ''again.'']
         \<and> concat (map pieces rounds)
             = [''Hello'', ''  '', ''world.'', '' '', ''Hello'', '' '', ''again.''])
   \<and> filter (\<lambda>c. \<not> py_isspace c) (py_join '' '' [''Hello'', ''world.'', ''Hello'', ''again.''])
       = filter (\<lambda>c. \<not> py_isspace c) ''Hello  world. Hello again.''"
proof -
  have s: "split_chunks ''Hello  world. Hello again.''
       = [''Hello'', ''  '', ''world.'', '' '', ''Hello'', '' '', ''again.'']"
    by code_simp
  have w: "textwrap_wrap ''Hello  world. Hello again.'' 9 False
       = Inr [''Hello'', ''world.'', ''Hello'', ''again.'']"
    by code_simp
  have len1: "(0::int) < 9" by simp
  have len2: "9 < int (length ''Hello  world. Hello again.'')" by simp
  note t = transcript_chunks_whole_pieces [of 9 "''Hello  world. Hello again.''" fixed_service,
      rule_format, OF conjI [OF len1 len2]]
  from t obtain rounds where
    g: "textwrap_wrap ''Hello  world. Hello again.'' 9 False
          = Inr (map concat (filter (\<lambda>g. g \<noteq> []) (map kept rounds)))"
      "split_chunks ''Hello  world. Hello again.'' = concat (map pieces rounds)"
    by blast
  from g(1) w have m: "map concat (filter (\<lambda>g. g \<noteq> []) (map kept rounds))
      = [''Hello'', ''world.'', ''Hello'', ''again.'']"
    by simp
  from g(2) s have p: "concat (map pieces rounds)
      = [''Hello'', ''  '', ''world.'', '' '', ''Hello'', '' '', ''again.'']"
    by simp
  have ex: "\<exists>rounds. map concat (filter (\<lambda>g. g \<noteq> []) (map kept rounds))
                 = [''Hello'', ''world.'', ''Hello'', ''again.'']
         \<and> concat (map pieces rounds)
             = [''Hello'', ''  '', ''world.'', '' '', ''Hello'', '' '', ''again.'']"
    by (intro exI [of _ rounds] conjI m p)
  from t w have j: "filter (\<lambda>c. \<not> py_isspace c)
        (py_join '' '' [''Hello'', ''world.'', ''Hello'', ''again.''])
       = filter (\<lambda>c. \<not> py_isspace c) ''Hello  world. Hello again.''"
    by blast
  show ?thesis by (intro conjI len1 len2 w ex j)
qed

section \<open>save_pdf: what is drawn, and where\<close>

subsection \<open>Lines of whitespace\<close>

lemma expandtabs_ws: "list_all ascii_ws s \<Longrightarrow> list_all ascii_ws (expandtabs tabsize line_pos s)"
proof (induction s arbitrary: line_pos)
  case Nil
  then show ?case by simp
next
  case (Cons ch cs)
  have spaces: "list_all ascii_ws (replicate n (CHR '' ''))" for n
    by (simp add: list_all_iff ascii_ws_def)
  from Cons.prems have tl: "list_all ascii_ws cs" by simp
  show ?case
  proof (cases "tabsize > 0")
    case True
    with Cons.IH [OF tl] Cons.prems spaces show ?thesis by (simp add: Let_def)
  next
    case False
    with Cons.IH [OF tl] Cons.prems show ?thesis by simp
  qed
qed

lemma munge_whitespace_ws:
  "list_all ascii_ws s \<Longrightarrow> list_all (\<lambda>c. c = CHR '' '') (munge_whitespace s)"
  using expandtabs_ws [of s 8 0] by (simp add: munge_whitespace_def list_all_iff)

lemma wordsep_split_spaces:
  assumes "list_all (\<lambda>c. c = CHR '' '') s" "s \<noteq> []"
  shows "wordsep_split bef s = [s]"
proof -
  obtain c cs where s: "s = c # cs" using assms(2) by (cases s) auto
  have ws: "list_all ascii_ws s" using assms(1) by (simp add: list_all_iff ascii_ws_def)
  with s have c: "ascii_ws c" and "\<forall>x \<in> set cs. ascii_ws x" by (simp_all add: list_all_iff)
  then have tw: "takeWhile ascii_ws cs = cs" by (simp add: takeWhile_eq_all_conv)
  from c have "match_length bef c cs = Suc (length (takeWhile ascii_ws cs))"
    by (simp add: match_length_def)
  then have "match_length bef c cs = length s"
    unfolding tw by (simp add: s)
  then show ?thesis by (simp add: s)
qed

lemma split_chunks_ws:
  assumes "list_all ascii_ws s"
  shows "split_chunks s = [] \<or> (\<exists>c. split_chunks s = [c] \<and> list_all (\<lambda>x. x = CHR '' '') c)"
proof (cases "munge_whitespace s = []")
  case True
  then show ?thesis by (simp add: split_chunks_def)
next
  case False
  with wordsep_split_spaces [OF munge_whitespace_ws [OF assms] False, of "[]"]
  have "split_chunks s = [munge_whitespace s]" by (simp add: split_chunks_def)
  with munge_whitespace_ws [OF assms] show ?thesis by simp
qed

lemma spaces_blank: "list_all (\<lambda>x. x = CHR '' '') c \<Longrightarrow> blank c"
  by (induction c) (simp_all add: blank_def isspace_space)

lemma wrap_step_spaces:
  assumes "list_all (\<lambda>x. x = CHR '' '') c" "1 \<le> width"
  shows "wrap_step width True False [c]
           = ([], if length c \<le> width then [] else [drop width c])"
proof (cases "length c \<le> width")
  case True
  with assms(1) show ?thesis
    by (simp add: wrap_step_def spaces_blank)
next
  case False
  have "CHR ''-'' \<notin> set (take width c)"
    using assms(1) by (auto simp: list_all_iff dest: in_set_takeD)
  then have rf: "rfind (CHR ''-'') c width = None"
    by (simp add: rfind_def)
  have "list_all (\<lambda>x. x = CHR '' '') (take width c)"
    using assms(1) by (auto simp: list_all_iff dest: in_set_takeD)
  then have "blank (take width c)" by (rule spaces_blank)
  with False assms(2) rf show ?thesis
    by (simp add: wrap_step_def Let_def)
qed

lemma wrap_loop_spaces:
  assumes "1 \<le> width"
  shows "list_all (\<lambda>x. x = CHR '' '') c \<Longrightarrow> wrap_loop width True [] [c] = []"
proof (induction "length c" arbitrary: c rule: less_induct)
  case less
  have step: "wrap_loop width True [] [c]
      = wrap_loop width True [] (if length c \<le> width then [] else [drop width c])"
    using wrap_loop_step [of "[c]" width True "[]" "[]"
        "if length c \<le> width then [] else [drop width c]"]
      wrap_step_spaces [OF less.prems assms]
    by simp
  show ?case
  proof (cases "length c \<le> width")
    case True
    with step show ?thesis by (simp add: wrap_loop_Nil)
  next
    case False
    with assms have shorter: "length (drop width c) < length c" by simp
    have "list_all (\<lambda>x. x = CHR '' '') (drop width c)"
      using less.prems by (auto simp: list_all_iff dest: in_set_dropD)
    from less.hyps [OF shorter this] False step show ?thesis by simp
  qed
qed

lemma textwrap_wrap_100: "textwrap_wrap line 100 True = Inr (wrap_loop 100 True [] (split_chunks line))"
  by (simp add: textwrap_wrap_def wrap_chunks_def)

lemma textwrap_wrap_ws:
  assumes "list_all ascii_ws line"
  shows "textwrap_wrap line 100 True = Inr []"
proof -
  from split_chunks_ws [OF assms] have "wrap_loop 100 True [] (split_chunks line) = []"
    using wrap_loop_spaces [of 100] by (auto simp: wrap_loop_Nil)
  then show ?thesis by (simp add: textwrap_wrap_100)
qed

text \<open>
  C10 as stated fails. NO-BREAK SPACE is whitespace for \<^verbatim>\<open>str.isspace\<close> and
  \<^verbatim>\<open>str.strip\<close>, but not for the wrapper, whose whitespace is the ASCII one: the
  line NO-BREAK SPACE, space, NO-BREAK SPACE has only whitespace, yet one line is
  drawn for it and the cursor goes from 722 to 707.
\<close>

theorem save_pdf_nbsp_line_is_drawn:
  "list_all py_isspace [CHR 0xA0, CHR '' '', CHR 0xA0]
   \<and> textwrap_wrap [CHR 0xA0, CHR '' '', CHR 0xA0] 100 True = Inr [[CHR 0xA0, CHR '' '']]
   \<and> draw_lines [[CHR 0xA0, CHR '' '', CHR 0xA0]] (722, [])
       = Inr (707, [DrawString 50 722 [CHR 0xA0, CHR '' '']])"
  by code_simp

text \<open>
  C10, amended. For every line of the report that is empty or has only characters of
  the wrapper's whitespace (tab, line feed, vertical tab, form feed, carriage return,
  space), \<^verbatim>\<open>textwrap.wrap(line, 100)\<close> is the empty list, so the loop of
  \<^verbatim>\<open>save_pdf\<close> draws nothing for the line and leaves the cursor where it was.
\<close>

theorem save_pdf_blank_line:
  "list_all ascii_ws line \<longrightarrow>
     textwrap_wrap line 100 True = Inr []
     \<and> draw_lines [line] (y, ops) = Inr (y, ops)
     \<and> draw_lines (line # lines) (y, ops) = draw_lines lines (y, ops)"
  using textwrap_wrap_ws [of line] by simp

theorem save_pdf_blank_line_witness:
  "list_all ascii_ws [CHR '' '', CHR 0x09, CHR '' '']
   \<and> textwrap_wrap [CHR '' '', CHR 0x09, CHR '' ''] 100 True = Inr []
   \<and> draw_lines [[CHR '' '', CHR 0x09, CHR '' '']] (722, []) = Inr (722, [])
   \<and> list_all ascii_ws []
   \<and> draw_lines [[]] (722, []) = Inr (722, [])
   \<and> save_pdf ''/tmp'' ''T'' ''a\<newline>\<newline>b'' ''f.pdf''
       = Inr (''/tmp/f.pdf'',
              [SetFont ''Helvetica-Bold'' 14, DrawString 50 742 ''T'', SetFont ''Helvetica'' 10,
               DrawString 50 722 ''a'', DrawString 50 707 ''b'', Save])"
proof -
  have ws: "list_all ascii_ws [CHR '' '', CHR 0x09, CHR '' '']"
    by (simp add: ascii_ws_def)
  have e: "list_all ascii_ws []" by simp
  have s: "save_pdf ''/tmp'' ''T'' ''a\<newline>\<newline>b'' ''f.pdf''
       = Inr (''/tmp/f.pdf'',
              [SetFont ''Helvetica-Bold'' 14, DrawString 50 742 ''T'', SetFont ''Helvetica'' 10,
               DrawString 50 722 ''a'', DrawString 50 707 ''b'', Save])"
    by code_simp
  from save_pdf_blank_line [of "[CHR '' '', CHR 0x09, CHR '' '']" 722 "[]" "[]"]
    save_pdf_blank_line [of "[]" 722 "[]" "[]"] ws e s
  show ?thesis by simp
qed

subsection \<open>The cursor and the page breaks\<close>

lemma draw_wrapped_step:
  "draw_wrapped (wline # wlines) (y, ops)
     = draw_wrapped wlines
         (next_cursor y, ops @ DrawString 50 y wline # (if y - 15 < 50 then [ShowPage] else []))"
  by (simp add: next_cursor_def)

lemma upt_shift: "[0..<Suc n] = 0 # map Suc [0..<n]"
  by (simp add: upt_conv_Cons map_Suc_upt del: upt_Suc)

lemma draw_wrapped_ops:
  "draw_wrapped wlines (y, ops)
     = ((next_cursor ^^ length wlines) y,
        ops @ concat (map (\<lambda>k. DrawString 50 ((next_cursor ^^ k) y) (wlines ! k)
                                 # (if (next_cursor ^^ k) y - 15 < 50 then [ShowPage] else []))
                          [0..<length wlines]))"
proof (induction wlines arbitrary: y ops)
  case Nil
  then show ?case by simp
next
  case (Cons w ws)
  have "draw_wrapped (w # ws) (y, ops)
      = draw_wrapped ws
          (next_cursor y, ops @ DrawString 50 y w # (if y - 15 < 50 then [ShowPage] else []))"
    by (rule draw_wrapped_step)
  also have "\<dots> = ((next_cursor ^^ length ws) (next_cursor y),
        (ops @ DrawString 50 y w # (if y - 15 < 50 then [ShowPage] else []))
        @ concat (map (\<lambda>k. DrawString 50 ((next_cursor ^^ k) (next_cursor y)) (ws ! k)
                                 # (if (next_cursor ^^ k) (next_cursor y) - 15 < 50
                                    then [ShowPage] else []))
                          [0..<length ws]))"
    by (rule Cons.IH)
  also have "\<dots> = ((next_cursor ^^ length (w # ws)) y,
        ops @ concat (map (\<lambda>k. DrawString 50 ((next_cursor ^^ k) y) ((w # ws) ! k)
                                 # (if (next_cursor ^^ k) y - 15 < 50 then [ShowPage] else []))
                          [0..<length (w # ws)]))"
    by (simp add: upt_shift funpow_swap1 comp_def del: upt_Suc)
  finally show ?case .
qed

lemma draw_wrapped_append:
  "draw_wrapped (xs @ ys) st = draw_wrapped ys (draw_wrapped xs st)"
proof (induction xs arbitrary: st)
  case Nil
  then show ?case by (cases st) simp
next
  case (Cons x xs)
  then show ?case by (cases st) simp
qed

lemma draw_wrapped_Nil: "draw_wrapped [] st = st"
  by (cases st) simp

lemma draw_lines_wrapped:
  "draw_lines lines st
     = Inr (draw_wrapped (concat (map (\<lambda>line. wrap_loop 100 True [] (split_chunks line)) lines)) st)"
  by (induction lines arbitrary: st)
     (simp_all add: textwrap_wrap_100 draw_wrapped_append draw_wrapped_Nil)

lemma cursor_first_page:
  "k \<le> 44 \<Longrightarrow> (next_cursor ^^ k) 722 = 722 - 15 * int k"
  by (induction k) (simp_all add: next_cursor_def)

lemma cursor_later_pages:
  "(next_cursor ^^ j) 742 = 742 - 15 * int (j mod 47)"
proof (induction j)
  case 0
  then show ?case by simp
next
  case (Suc j)
  have m: "j mod 47 < 47" by simp
  show ?case
  proof (cases "j mod 47 = 46")
    case True
    then have "Suc j mod 47 = 0" by (simp add: mod_Suc)
    with Suc True show ?thesis by (simp add: next_cursor_def page_height_def)
  next
    case False
    with m have "Suc j mod 47 = Suc (j mod 47)" "j mod 47 \<le> 45" by (simp_all add: mod_Suc)
    with Suc show ?thesis by (simp add: next_cursor_def)
  qed
qed

lemma cursor_closed_form:
  "(next_cursor ^^ k) 722
     = (if k < 45 then 722 - 15 * int k else 742 - 15 * int ((k - 45) mod 47))"
proof (cases "k < 45")
  case True
  then show ?thesis by (simp add: cursor_first_page)
next
  case False
  then have k: "k = (k - 45) + 45" by simp
  have "(next_cursor ^^ 45) 722 = next_cursor ((next_cursor ^^ 44) 722)"
    by (simp add: numeral_eq_Suc)
  also have "\<dots> = 742" by (simp add: cursor_first_page next_cursor_def page_height_def)
  finally have "(next_cursor ^^ 45) 722 = 742" .
  then have "(next_cursor ^^ ((k - 45) + 45)) 722 = (next_cursor ^^ (k - 45)) 742"
    by (simp add: funpow_add)
  with k False show ?thesis by (simp add: cursor_later_pages)
qed

lemma save_pdf_ops:
  "save_pdf tempdir title summary_text filename
     = Inr (path_join tempdir filename,
            [SetFont ''Helvetica-Bold'' 14, DrawString 50 742 title, SetFont ''Helvetica'' 10]
            @ concat (map (\<lambda>k. DrawString 50
                                  (if k < 45 then 722 - 15 * int k
                                   else 742 - 15 * int ((k - 45) mod 47))
                                  (concat (map (\<lambda>line. wrap_loop 100 True [] (split_chunks line))
                                             (py_split (CHR 0x0A) summary_text)) ! k)
                               # (if (if k < 45 then 722 - 15 * int k
                                      else 742 - 15 * int ((k - 45) mod 47)) - 15 < 50
                                  then [ShowPage] else []))
                        [0..<length (concat (map (\<lambda>line. wrap_loop 100 True [] (split_chunks line))
                                                (py_split (CHR 0x0A) summary_text)))])
            @ [Save])"
  by (simp add: save_pdf_def Let_def draw_lines_wrapped draw_wrapped_ops page_height_def
        cursor_closed_form)

lemma second_page_drawn:
  fixes cursor :: "nat \<Rightarrow> int" and rendered :: "string list"
  assumes "45 < n" "cursor 44 - 15 < 50" "cursor 45 = 742" "\<not> cursor 45 - 15 < 50"
  shows "\<exists>pre post.
           concat (map (\<lambda>k. DrawString 50 (cursor k) (rendered ! k)
                              # (if cursor k - 15 < 50 then [ShowPage] else [])) [0..<n])
             = pre @ ShowPage # DrawString 50 742 (rendered ! 45) # post"
proof -
  have "[0..<n] = [0..<44] @ [44..<n]"
    using assms(1) upt_add_eq_append [of 0 44 "n - 44"] by simp
  also have "[44..<n] = 44 # 45 # [46..<n]"
    using assms(1) by (simp add: upt_conv_Cons)
  finally have split: "[0..<n] = [0..<44] @ 44 # 45 # [46..<n]" .
  define f where "f = (\<lambda>k. DrawString 50 (cursor k) (rendered ! k)
                              # (if cursor k - 15 < 50 then [ShowPage] else []))"
  have "concat (map f [0..<n])
      = (concat (map f [0..<44]) @ [DrawString 50 (cursor 44) (rendered ! 44)])
        @ ShowPage # DrawString 50 742 (rendered ! 45) # concat (map f [46..<n])"
    unfolding split using assms(2,3,4) by (simp add: f_def)
  then show ?thesis unfolding f_def by blast
qed

text \<open>
  C6. For every title and report text, \<^verbatim>\<open>save_pdf\<close> wraps each line of the text
  (the text split at line feeds) on its own with \<^verbatim>\<open>textwrap.wrap(line, 100)\<close>, and
  draws the title and then every wrapped line, in order, one \<^verbatim>\<open>drawString\<close> each.
  No wrapped line is longer than 100 characters, and the wrapped lines of a line hold
  all of its characters that are not whitespace. The cursor starts at 722 and goes
  down by 15 for each line drawn; when it falls below 50 a page break follows and the
  cursor is 742 again: 45 lines on the first page and 47 on each later one. With more
  than 45 wrapped lines, the 46th is drawn after a page break, on a second page.
\<close>

theorem save_pdf_renders_every_line:
  "let lines = py_split (CHR 0x0A) summary_text;
       rendered = concat (map (\<lambda>line. wrap_loop 100 True [] (split_chunks line)) lines);
       cursor = (\<lambda>k::nat. if k < 45 then 722 - 15 * int k
                           else 742 - 15 * int ((k - 45) mod 47))
   in (\<exists>ops.
         save_pdf tempdir title summary_text filename = Inr (path_join tempdir filename, ops)
         \<and> ops = [SetFont ''Helvetica-Bold'' 14, DrawString 50 742 title, SetFont ''Helvetica'' 10]
                 @ concat (map (\<lambda>k. DrawString 50 (cursor k) (rendered ! k)
                                      # (if cursor k - 15 < 50 then [ShowPage] else []))
                             [0..<length rendered])
                 @ [Save]
         \<and> (45 < length rendered \<longrightarrow>
              (\<exists>pre post. ops = pre @ ShowPage # DrawString 50 742 (rendered ! 45) # post)))
      \<and> (\<forall>line \<in> set lines.
            textwrap_wrap line 100 True = Inr (wrap_loop 100 True [] (split_chunks line))
            \<and> filter (\<lambda>c. \<not> py_isspace c) (concat (wrap_loop 100 True [] (split_chunks line)))
                = filter (\<lambda>c. \<not> py_isspace c) line)
      \<and> (\<forall>s \<in> set rendered. length s \<le> 100)"
proof -
  define lines where "lines = py_split (CHR 0x0A) summary_text"
  define rendered where
    "rendered = concat (map (\<lambda>line. wrap_loop 100 True [] (split_chunks line)) lines)"
  define cursor :: "nat \<Rightarrow> int" where
    "cursor = (\<lambda>k. if k < 45 then 722 - 15 * int k else 742 - 15 * int ((k - 45) mod 47))"
  define body where
    "body = concat (map (\<lambda>k. DrawString 50 (cursor k) (rendered ! k)
                                      # (if cursor k - 15 < 50 then [ShowPage] else []))
                             [0..<length rendered])"
  define ops where
    "ops = [SetFont ''Helvetica-Bold'' 14, DrawString 50 742 title, SetFont ''Helvetica'' 10]
             @ body @ [Save]"
  have 1: "save_pdf tempdir title summary_text filename = Inr (path_join tempdir filename, ops)"
    unfolding ops_def body_def cursor_def rendered_def lines_def by (rule save_pdf_ops)
  have 2: "\<exists>pre post. ops = pre @ ShowPage # DrawString 50 742 (rendered ! 45) # post"
    if "45 < length rendered"
  proof -
    have "\<exists>pre post. body = pre @ ShowPage # DrawString 50 742 (rendered ! 45) # post"
      unfolding body_def
      by (rule second_page_drawn [OF that]) (simp_all add: cursor_def)
    then obtain pre post
      where "body = pre @ ShowPage # DrawString 50 742 (rendered ! 45) # post" by blast
    then have "ops = ([SetFont ''Helvetica-Bold'' 14, DrawString 50 742 title,
          SetFont ''Helvetica'' 10] @ pre)
        @ ShowPage # DrawString 50 742 (rendered ! 45) # (post @ [Save])"
      by (simp add: ops_def)
    then show ?thesis by blast
  qed
  have 3: "\<forall>line \<in> set lines.
            textwrap_wrap line 100 True = Inr (wrap_loop 100 True [] (split_chunks line))
            \<and> filter (\<lambda>c. \<not> py_isspace c) (concat (wrap_loop 100 True [] (split_chunks line)))
                = filter (\<lambda>c. \<not> py_isspace c) line"
    by (simp add: textwrap_wrap_100 wrap_content)
  have 4: "\<forall>s \<in> set rendered. length s \<le> 100"
    using wrap_loop_width [of 100 "[]"] by (auto simp: rendered_def)
  from 1 2 have "\<exists>ops'.
         save_pdf tempdir title summary_text filename = Inr (path_join tempdir filename, ops')
         \<and> ops' = [SetFont ''Helvetica-Bold'' 14, DrawString 50 742 title, SetFont ''Helvetica'' 10]
                 @ body @ [Save]
         \<and> (45 < length rendered \<longrightarrow>
              (\<exists>pre post. ops' = pre @ ShowPage # DrawString 50 742 (rendered ! 45) # post))"
    unfolding ops_def [symmetric] by blast
  with 3 4 show ?thesis
    unfolding Let_def lines_def [symmetric] rendered_def [symmetric] cursor_def [symmetric]
      body_def [symmetric]
    by blast
qed

theorem save_pdf_renders_every_line_witness:
  "concat (map (\<lambda>line. wrap_loop 100 True [] (split_chunks line))
       (py_split (CHR 0x0A) (concat (replicate 46 ''ab cd\<newline>'')))) = replicate 46 ''ab cd''
   \<and> (45::nat) < 46
   \<and> (\<exists>pre post. save_pdf ''/tmp'' ''T'' (concat (replicate 46 ''ab cd\<newline>'')) ''f.pdf''
          = Inr (''/tmp/f.pdf'', pre @ ShowPage # DrawString 50 742 ''ab cd'' # post))"
proof -
  define rendered where "rendered = concat (map (\<lambda>line. wrap_loop 100 True [] (split_chunks line))
       (py_split (CHR 0x0A) (concat (replicate 46 ''ab cd\<newline>''))))"
  have r: "rendered = replicate 46 ''ab cd''"
    unfolding rendered_def by code_simp
  have p: "path_join ''/tmp'' ''f.pdf'' = ''/tmp/f.pdf''"
    by (simp add: path_join_def)
  from save_pdf_renders_every_line
    [of "concat (replicate 46 ''ab cd\<newline>'')" "''/tmp''" "''T''" "''f.pdf''"]
  have "\<exists>ops. save_pdf ''/tmp'' ''T'' (concat (replicate 46 ''ab cd\<newline>'')) ''f.pdf''
            = Inr (path_join ''/tmp'' ''f.pdf'', ops)
          \<and> (45 < length rendered \<longrightarrow>
               (\<exists>pre post. ops = pre @ ShowPage # DrawString 50 742 (rendered ! 45) # post))"
    unfolding Let_def rendered_def by blast
  then obtain ops pre post where
    "save_pdf ''/tmp'' ''T'' (concat (replicate 46 ''ab cd\<newline>'')) ''f.pdf''
       = Inr (path_join ''/tmp'' ''f.pdf'', ops)"
    "ops = pre @ ShowPage # DrawString 50 742 (rendered ! 45) # post"
    unfolding r by auto
  then have "save_pdf ''/tmp'' ''T'' (concat (replicate 46 ''ab cd\<newline>'')) ''f.pdf''
       = Inr (''/tmp/f.pdf'', pre @ ShowPage # DrawString 50 742 ''ab cd'' # post)"
    unfolding r p by simp
  then have "\<exists>pre post. save_pdf ''/tmp'' ''T'' (concat (replicate 46 ''ab cd\<newline>'')) ''f.pdf''
          = Inr (''/tmp/f.pdf'', pre @ ShowPage # DrawString 50 742 ''ab cd'' # post)"
    by blast
  with r show ?thesis unfolding rendered_def by simp
qed

end
